theory Spec2Isabelle
  imports Main
begin

section \<open>The Can I Use prefix resolver of Emmet (lib/assets/caniuse.js)\<close>

text \<open>
  The module keeps three tables (\<open>cssDB\<close>, \<open>vendorsDB\<close>, \<open>erasDB\<close>), filled by
  \<open>parseDB\<close> from a raw Can I Use document, and answers \<open>resolvePrefixes(property)\<close>
  from them and from three preferences. The model below follows the source function by
  function. The host and library operations the source calls (property access on plain
  objects, \<open>String.indexOf\<close>, \<open>Array.slice\<close>, \<open>Array.sort\<close>, \<open>parseInt\<close>, and
  lodash's \<open>keys\<close>, \<open>indexOf\<close>, \<open>unique\<close>, \<open>intersection\<close>) are modelled by their
  documented behaviour on the values this module hands them.
\<close>

subsection \<open>Host values: errors, plain objects, strings, arrays\<close>

text \<open>
  The exceptions the module can raise: \<open>JSON.parse\<close> throws a SyntaxError on text that is not
  JSON; reading a property of \<open>undefined\<close> throws a TypeError.
\<close>

datatype js_error = SyntaxError | TypeError

text \<open>
  A plain object is the list of its own enumerable properties in enumeration order (insertion
  order, for the non-numeric keys this database uses); its keys are distinct. \<open>o[k]\<close> reads
  the own property; \<open>o[k] = v\<close> replaces the value of an existing key in place and appends a
  new key at the end.
\<close>

type_synonym 'a obj = "(string \<times> 'a) list"

definition obj_get :: "'a obj \<Rightarrow> string \<Rightarrow> 'a option" where
  "obj_get ob k = map_of ob k"

fun obj_set :: "'a obj \<Rightarrow> string \<Rightarrow> 'a \<Rightarrow> 'a obj" where
  "obj_set [] k v = [(k, v)]"
| "obj_set ((k', v') # ob) k v = (if k' = k then (k, v) # ob else (k', v') # obj_set ob k v)"

text \<open>lodash \<open>_.keys(o)\<close>: the own enumerable keys; the empty array for \<open>null\<close>.\<close>

definition obj_keys :: "'a obj option \<Rightarrow> string list" where
  "obj_keys ob = (case ob of None \<Rightarrow> [] | Some kvs \<Rightarrow> map fst kvs)"

text \<open>
  The operator \<open>k in o\<close> also finds the properties a plain object inherits from
  \<open>Object.prototype\<close>: those of ECMAScript 5.1 (15.2.4) and the legacy accessors every
  engine this module runs on provides.
\<close>

definition Object_prototype_names :: "string list" where
  "Object_prototype_names =
     [''constructor'', ''toString'', ''toLocaleString'', ''valueOf'', ''hasOwnProperty'',
      ''isPrototypeOf'', ''propertyIsEnumerable'', ''__proto__'', ''__defineGetter__'',
      ''__defineSetter__'', ''__lookupGetter__'', ''__lookupSetter__'']"

definition js_in :: "string \<Rightarrow> 'a obj \<Rightarrow> bool" where
  "js_in k ob = (obj_get ob k \<noteq> None \<or> k \<in> set Object_prototype_names)"

text \<open>
  All inherited members but \<open>__proto__\<close> are functions; a function has a numeric
  \<open>length\<close>, its number of declared parameters, and no indexed entries. (\<open>__proto__\<close>
  gives the prototype object itself, which has no \<open>length\<close> and no enumerable entry.)
\<close>

definition Object_prototype_lengths :: "nat obj" where
  "Object_prototype_lengths =
     [(''constructor'', 1), (''toString'', 0), (''toLocaleString'', 0), (''valueOf'', 0),
      (''hasOwnProperty'', 1), (''isPrototypeOf'', 1), (''propertyIsEnumerable'', 1),
      (''__defineGetter__'', 2), (''__defineSetter__'', 2), (''__lookupGetter__'', 1),
      (''__lookupSetter__'', 1)]"

text \<open>
  \<open>s.indexOf(needle)\<close>: the first position at which \<open>needle\<close> occurs in \<open>s\<close>, or \<open>-1\<close>.
\<close>

fun indexOf_from :: "string \<Rightarrow> string \<Rightarrow> nat \<Rightarrow> int" where
  "indexOf_from [] needle i = (if needle = [] then int i else - 1)"
| "indexOf_from (c # cs) needle i =
     (if take (length needle) (c # cs) = needle then int i
      else indexOf_from cs needle (Suc i))"

definition str_indexOf :: "string \<Rightarrow> string \<Rightarrow> int" where
  "str_indexOf s needle = indexOf_from s needle 0"

text \<open>lodash \<open>_.indexOf(array, x)\<close>: the first index of \<open>x\<close>, or \<open>-1\<close>; \<open>-1\<close> for \<open>null\<close>.\<close>

fun index_from :: "string list \<Rightarrow> string \<Rightarrow> nat \<Rightarrow> int" where
  "index_from [] x i = - 1"
| "index_from (y # ys) x i = (if y = x then int i else index_from ys x (Suc i))"

definition lodash_indexOf :: "string list option \<Rightarrow> string \<Rightarrow> int" where
  "lodash_indexOf arr x = (case arr of None \<Rightarrow> - 1 | Some xs \<Rightarrow> index_from xs x 0)"

text \<open>
  \<open>xs.slice(k)\<close>: from index \<open>k\<close> to the end; a negative \<open>k\<close> counts from the end and is
  clamped at the start of the array; a \<open>k\<close> past the end gives the empty array.
\<close>

definition js_slice :: "'a list \<Rightarrow> int \<Rightarrow> 'a list" where
  "js_slice xs k =
     (if k < 0 then drop (nat (max (int (length xs) + k) 0)) xs else drop (nat k) xs)"

text \<open>
  lodash \<open>_.unique(xs)\<close> keeps the first occurrence of every value;
  \<open>_.intersection(xs, ys)\<close> keeps, in the order of \<open>xs\<close> and once each, the values of
  \<open>xs\<close> that occur in \<open>ys\<close>.
\<close>

definition uniq :: "'a list \<Rightarrow> 'a list" where
  "uniq xs = foldl (\<lambda>res v. if v \<in> set res then res else res @ [v]) [] xs"

definition intersection :: "'a list \<Rightarrow> 'a list \<Rightarrow> 'a list" where
  "intersection xs ys = filter (\<lambda>v. v \<in> set ys) (uniq xs)"

text \<open>
  \<open>xs.sort(cmp)\<close>: the host's algorithm is its own; the model is the insertion sort, which
  for a consistent comparator gives the sorted permutation every host gives, up to the order
  of elements that compare equal. A comparator result of \<open>NaN\<close> counts as \<open>0\<close>.
\<close>

fun insort_cmp :: "('a \<Rightarrow> 'a \<Rightarrow> int) \<Rightarrow> 'a \<Rightarrow> 'a list \<Rightarrow> 'a list" where
  "insort_cmp cmp x [] = [x]"
| "insort_cmp cmp x (y # ys) = (if cmp x y \<le> 0 then x # y # ys else y # insort_cmp cmp x ys)"

definition js_sort :: "('a \<Rightarrow> 'a \<Rightarrow> int) \<Rightarrow> 'a list \<Rightarrow> 'a list" where
  "js_sort cmp xs = foldr (insort_cmp cmp) xs []"

text \<open>
  \<open>parseInt(s)\<close>: leading white space is skipped, then an optional sign, then \<open>0x\<close> selects
  radix 16, then the longest run of digits is read; no digit at all gives \<open>NaN\<close> (\<open>None\<close>).
  The host returns a double: the integer below is what it returns up to \<open>2^53\<close>, which
  covers every digit string of at most 15 characters. (Hosts older than ECMAScript 5 may
  read a digit string with a leading zero as octal; the model reads it as decimal.)
\<close>

definition is_space :: "char \<Rightarrow> bool" where
  "is_space c = (of_char c \<in> {9, 10, 11, 12, 13, 32 :: nat})"

definition digit_of :: "nat \<Rightarrow> char \<Rightarrow> nat option" where
  "digit_of radix c =
     (let n = (of_char c :: nat);
          d = (if 48 \<le> n \<and> n \<le> 57 then Some (n - 48)
               else if 97 \<le> n \<and> n \<le> 122 then Some (n - 87)
               else if 65 \<le> n \<and> n \<le> 90 then Some (n - 55)
               else None)
      in case d of None \<Rightarrow> None | Some v \<Rightarrow> if v < radix then Some v else None)"

definition digits_value :: "nat \<Rightarrow> string \<Rightarrow> nat" where
  "digits_value radix ds =
     foldl (\<lambda>a c. radix * a + (case digit_of radix c of Some v \<Rightarrow> v | None \<Rightarrow> 0)) 0 ds"

definition parseInt :: "string \<Rightarrow> int option" where
  "parseInt s =
     (let s1 = dropWhile is_space s;
          neg = (case s1 of c # _ \<Rightarrow> c = CHR ''-'' | [] \<Rightarrow> False);
          s2 = (case s1 of c # r \<Rightarrow> if c = CHR ''-'' \<or> c = CHR ''+'' then r else s1 | [] \<Rightarrow> []);
          hex = (case s2 of a # b # _ \<Rightarrow> a = CHR ''0'' \<and> (b = CHR ''x'' \<or> b = CHR ''X'')
                 | _ \<Rightarrow> False);
          radix = (if hex then 16 else 10);
          s3 = (if hex then drop 2 s2 else s2);
          ds = takeWhile (\<lambda>c. digit_of radix c \<noteq> None) s3
      in if ds = [] then None
         else Some ((if neg then - 1 else 1) * int (digits_value radix ds)))"

subsection \<open>The raw database, the parsed tables and the preferences\<close>

text \<open>
  The raw document: \<open>agents\<close> maps a vendor to its prefix and its version labels, one per
  era, \<open>null\<close> where the vendor had no release; \<open>data\<close> maps a feature section to its
  \<open>stats\<close>, the support code of every vendor and version; \<open>eras\<close> maps era identifiers
  to labels; \<open>cats\<close> is the category table, which \<open>parseCSS\<close> reads (\<open>data.cats.CSS\<close>)
  and which a document may lack.
\<close>

record agent =
  agent_prefix :: string
  agent_versions :: "string option list"

type_synonym stats_table = "string obj obj"

record feature =
  stats :: stats_table

record raw_db =
  agents :: "agent obj"
  cats :: "string list obj option"
  data :: "feature obj"
  eras :: "string obj"

record vendor_info =
  prefix :: string
  versions :: "string option list"

text \<open>The module's three variables; \<open>None\<close> is \<open>null\<close>, their initial value.\<close>

record state =
  cssDB :: "stats_table obj option"
  vendorsDB :: "vendor_info obj option"
  erasDB :: "string list option"

definition init_state :: state where
  "init_state = \<lparr>cssDB = None, vendorsDB = None, erasDB = None\<rparr>"

text \<open>
  The preference module is not part of this file; the three values the resolver reads from
  it are parameters: \<open>prefs.get('caniuse.enabled')\<close>, the result of
  \<open>prefs.getArray('caniuse.vendors')\<close> (an array of names, or \<open>null\<close> when the
  preference holds no list) and \<open>prefs.get('caniuse.era')\<close>.
\<close>

record prefs =
  enabled :: bool
  vendors :: "string list option"
  era :: string

text \<open>The static table of feature sections and the identifiers each covers.\<close>

definition cssSections :: "string list obj" where
  "cssSections =
    [(''border-image'', [''border-image'']),
     (''css-boxshadow'', [''box-shadow'']),
     (''css3-boxsizing'', [''box-sizing'']),
     (''multicolumn'', [''column-width'', ''column-count'', ''columns'', ''column-gap'',
        ''column-rule-color'', ''column-rule-style'', ''column-rule-width'', ''column-rule'',
        ''column-span'', ''column-fill'']),
     (''border-radius'', [''border-radius'', ''border-top-left-radius'',
        ''border-top-right-radius'', ''border-bottom-right-radius'',
        ''border-bottom-left-radius'']),
     (''transforms2d'', [''transform'']),
     (''css-hyphens'', [''hyphens'']),
     (''css-transitions'', [''transition'', ''transition-property'', ''transition-duration'',
        ''transition-timing-function'', ''transition-delay'']),
     (''font-feature'', [''font-feature-settings'']),
     (''css-animation'', [''animation'', ''animation-name'', ''animation-duration'',
        ''animation-timing-function'', ''animation-iteration-count'', ''animation-direction'',
        ''animation-play-state'', ''animation-delay'', ''animation-fill-mode'', ''@keyframes'']),
     (''css-gradients'', [''linear-gradient'']),
     (''css-masks'', [''mask-image'', ''mask-source-type'', ''mask-repeat'', ''mask-position'',
        ''mask-clip'', ''mask-origin'', ''mask-size'', ''mask'', ''mask-type'',
        ''mask-box-image-source'', ''mask-box-image-slice'', ''mask-box-image-width'',
        ''mask-box-image-outset'', ''mask-box-image-repeat'', ''mask-box-image'', ''clip-path'',
        ''clip-rule'']),
     (''css-featurequeries'', [''@supports'']),
     (''flexbox'', [''flex'', ''inline-flex'', ''flex-direction'', ''flex-wrap'', ''flex-flow'',
        ''order'', ''flex'']),
     (''calc'', [''calc'']),
     (''object-fit'', [''object-fit'', ''object-position'']),
     (''css-grid'', [''grid'', ''inline-grid'', ''grid-template-rows'', ''grid-template-columns'',
        ''grid-template-areas'', ''grid-template'', ''grid-auto-rows'', ''grid-auto-columns'',
        '' grid-auto-flow'', ''grid-auto-position'', ''grid'', '' grid-row-start'',
        ''grid-column-start'', ''grid-row-end'', ''grid-column-end'', ''grid-column'',
        ''grid-row'', ''grid-area'', ''justify-self'', ''justify-items'', ''align-self'',
        ''align-items'']),
     (''css-repeating-gradients'', [''repeating-linear-gradient'']),
     (''css-filters'', [''filter'']),
     (''user-select-none'', [''user-select'']),
     (''intrinsic-width'', [''min-content'', ''max-content'', ''fit-content'',
        ''fill-available'']),
     (''css3-tabsize'', [''tab-size''])]"

subsection \<open>parseDB and its three parsers\<close>

text \<open>
  \<open>parseVendors\<close>: for every agent of the document, in enumeration order, store its prefix
  and its version list under the agent's name.
\<close>

definition parseVendors :: "raw_db \<Rightarrow> vendor_info obj" where
  "parseVendors d =
     foldl (\<lambda>out (name, ag).
              obj_set out name \<lparr>prefix = agent_prefix ag, versions = agent_versions ag\<rparr>)
       [] (agents d)"

text \<open>
  \<open>parseCSS\<close>: \<open>data.cats.CSS\<close> is read first and throws a TypeError when the document
  has no \<open>cats\<close>; then every section of \<open>data.data\<close> whose name passes
  \<open>name in cssSections\<close> has its \<open>stats\<close> stored under each value that \<open>_.each\<close>
  finds in \<open>cssSections[name]\<close>. For a key of the table these are the identifiers listed
  for the section. A section named like an inherited function passes the \<open>in\<close> test too:
  lodash 2.x walks a value with a numeric \<open>length\<close> as an array, so the callback runs
  \<open>length\<close> times with the value \<open>undefined\<close>, and the \<open>stats\<close> are stored under the
  key \<open>undefined\<close>.
\<close>

definition each_keyword :: "string \<Rightarrow> string list" where
  "each_keyword name =
     (case obj_get cssSections name of
        Some kws \<Rightarrow> kws
      | None \<Rightarrow>
          (case obj_get Object_prototype_lengths name of
             Some n \<Rightarrow> replicate n ''undefined''
           | None \<Rightarrow> []))"

definition parseCSS :: "raw_db \<Rightarrow> js_error + stats_table obj" where
  "parseCSS d =
     (case cats d of
        None \<Rightarrow> Inl TypeError
      | Some _ \<Rightarrow>
          Inr (foldl (\<lambda>out (name, sec).
                  if js_in name cssSections
                  then foldl (\<lambda>out' kw. obj_set out' kw (stats sec)) out (each_keyword name)
                  else out)
                [] (data d)))"

text \<open>
  \<open>parseEra\<close>: the keys of \<open>data.eras\<close>, sorted by
  \<open>parseInt(a.substr(1)) - parseInt(b.substr(1))\<close>.
\<close>

definition substr1 :: "string \<Rightarrow> string" where
  "substr1 a = drop 1 a"

definition era_cmp :: "string \<Rightarrow> string \<Rightarrow> int" where
  "era_cmp a b =
     (case (parseInt (substr1 a), parseInt (substr1 b)) of
        (Some x, Some y) \<Rightarrow> x - y
      | _ \<Rightarrow> 0)"

definition parseEra :: "raw_db \<Rightarrow> string list" where
  "parseEra d = js_sort era_cmp (obj_keys (Some (eras d)))"

text \<open>
  \<open>parseDB(data)\<close>, exported as \<open>load\<close>: a string argument is decoded by
  \<open>JSON.parse\<close>, here the parameter \<open>decode\<close> (\<open>None\<close> when it throws); then the
  three variables are assigned one after the other. An exception leaves the assignments made
  before it in place.
\<close>

datatype load_arg = Text string | Document raw_db

definition parseDB ::
  "(string \<Rightarrow> raw_db option) \<Rightarrow> load_arg \<Rightarrow> state \<Rightarrow> (js_error + unit) \<times> state" where
  "parseDB decode arg st =
     (case (case arg of Text s \<Rightarrow> decode s | Document d \<Rightarrow> Some d) of
        None \<Rightarrow> (Inl SyntaxError, st)
      | Some d \<Rightarrow>
          (let st1 = st\<lparr>vendorsDB := Some (parseVendors d)\<rparr> in
           case parseCSS d of
             Inl e \<Rightarrow> (Inl e, st1)
           | Inr css \<Rightarrow>
               (let st2 = st1\<lparr>cssDB := Some css\<rparr> in
                (Inr (), st2\<lparr>erasDB := Some (parseEra d)\<rparr>))))"

subsection \<open>The resolver\<close>

text \<open>
  \<open>getVendorsList\<close>: all vendor keys when \<open>getArray\<close> gave \<open>null\<close> or an array whose
  first entry is \<open>all\<close>; else the intersection of the vendor keys with the array. (An empty
  array is truthy and its entry 0 is \<open>undefined\<close>, so it takes the intersection.)
\<close>

definition getVendorsList :: "prefs \<Rightarrow> state \<Rightarrow> string list" where
  "getVendorsList p st =
     (let allVendors = obj_keys (vendorsDB st) in
      case vendors p of
        None \<Rightarrow> allVendors
      | Some vs \<Rightarrow>
          (case vs of
             v # _ \<Rightarrow> if v = ''all'' then allVendors else intersection allVendors vs
           | [] \<Rightarrow> intersection allVendors vs))"

text \<open>
  \<open>getVersionSlice\<close>: the index of the configured era in \<open>erasDB\<close>; when that is
  \<open>-1\<close>, the index of \<open>e-2\<close>.
\<close>

definition getVersionSlice :: "prefs \<Rightarrow> state \<Rightarrow> int" where
  "getVersionSlice p st =
     (let ix = lodash_indexOf (erasDB st) (era p) in
      if ix = - 1 then lodash_indexOf (erasDB st) ''e-2'' else ix)"

text \<open>
  The cell \<open>propStats[vendor][v]\<close>: \<open>None\<close> when the vendor has no row or the row has no
  entry for the version; calling \<open>indexOf\<close> on it then throws a TypeError. The model reads
  own properties. For a version label this is what the program does: a label that a row only
  inherits gives a function or the prototype object, which has no \<open>indexOf\<close>, and the call
  throws as for \<open>undefined\<close>. For a vendor it is what the program does when the vendor is
  a key of the table or is not the name of an inherited property; a vendor that the table
  only inherits gives a function, whose property \<open>name\<close> is a string. The statements that
  say when a missing cell throws therefore take vendor names that are not names of inherited
  properties.
\<close>

definition cell :: "stats_table \<Rightarrow> string \<Rightarrow> string \<Rightarrow> string option" where
  "cell propStats vendor v =
     (case obj_get propStats vendor of None \<Rightarrow> None | Some row \<Rightarrow> obj_get row v)"

definition has_x :: "string \<Rightarrow> bool" where
  "has_x code = (str_indexOf code ''x'' \<noteq> - 1)"

text \<open>
  The \<open>for\<close> loop over one vendor's version slice: a falsy label (\<open>null\<close> or the empty
  string) is skipped; the first label whose code contains \<open>x\<close> ends the loop with
  \<open>True\<close> (the prefix is pushed); the end of the slice gives \<open>False\<close>.
\<close>

fun scanVersions :: "stats_table \<Rightarrow> string \<Rightarrow> string option list \<Rightarrow> js_error + bool" where
  "scanVersions propStats vendor [] = Inr False"
| "scanVersions propStats vendor (v # vs) =
     (case v of
        None \<Rightarrow> scanVersions propStats vendor vs
      | Some l \<Rightarrow>
          if l = [] then scanVersions propStats vendor vs
          else (case cell propStats vendor l of
                  None \<Rightarrow> Inl TypeError
                | Some code \<Rightarrow>
                    if has_x code then Inr True else scanVersions propStats vendor vs))"

text \<open>
  The \<open>_.each\<close> over the vendor list, with the array \<open>prefixes\<close> as accumulator; an
  exception in one vendor's loop ends the call.
\<close>

fun eachVendor ::
  "vendor_info obj \<Rightarrow> stats_table \<Rightarrow> int \<Rightarrow> string list \<Rightarrow> string list
     \<Rightarrow> js_error + string list" where
  "eachVendor vdb propStats start [] prefixes = Inr prefixes"
| "eachVendor vdb propStats start (vendor # rest) prefixes =
     (case obj_get vdb vendor of
        None \<Rightarrow> Inl TypeError
      | Some info \<Rightarrow>
          (case scanVersions propStats vendor (js_slice (versions info) start) of
             Inl e \<Rightarrow> Inl e
           | Inr found \<Rightarrow>
               eachVendor vdb propStats start rest
                 (if found then prefixes @ [prefix info] else prefixes)))"

text \<open>
  \<open>resolvePrefixes(property)\<close>: \<open>Inr None\<close> is the result \<open>null\<close>. For a name that
  \<open>cssDB\<close> only inherits, \<open>cssDB[property]\<close> is a member of \<open>Object.prototype\<close>,
  which has no row for any vendor: the empty table.
\<close>

definition length_cmp :: "string \<Rightarrow> string \<Rightarrow> int" where
  "length_cmp a b = int (length b) - int (length a)"

definition resolvePrefixes :: "prefs \<Rightarrow> state \<Rightarrow> string \<Rightarrow> js_error + string list option" where
  "resolvePrefixes p st property =
     (if \<not> enabled p then Inr None
      else case cssDB st of
        None \<Rightarrow> Inr None
      | Some css \<Rightarrow>
          if \<not> js_in property css then Inr None
          else
            (let propStats = (case obj_get css property of Some t \<Rightarrow> t | None \<Rightarrow> []);
                 start = getVersionSlice p st;
                 vdb = (case vendorsDB st of Some v \<Rightarrow> v | None \<Rightarrow> [])
             in case eachVendor vdb propStats start (getVendorsList p st) [] of
                  Inl e \<Rightarrow> Inl e
                | Inr prefixes \<Rightarrow> Inr (Some (js_sort length_cmp (uniq prefixes)))))"

subsection \<open>Predicates used in the statements\<close>

text \<open>
  The loop moves on past a version entry when the entry is falsy or its cell holds a code
  without \<open>x\<close>.
\<close>

definition passes :: "stats_table \<Rightarrow> string \<Rightarrow> string option \<Rightarrow> bool" where
  "passes propStats vendor v =
     (case v of
        None \<Rightarrow> True
      | Some l \<Rightarrow> l = [] \<or> (case cell propStats vendor l of None \<Rightarrow> False | Some c \<Rightarrow> \<not> has_x c))"

text \<open>
  Every version label in the scanned slice of every vendor of the effective list has a cell
  in the table.
\<close>

definition cells_present :: "prefs \<Rightarrow> state \<Rightarrow> stats_table \<Rightarrow> bool" where
  "cells_present p st propStats =
     (\<forall>vendor\<in>set (getVendorsList p st).
        case obj_get (case vendorsDB st of Some v \<Rightarrow> v | None \<Rightarrow> []) vendor of
          None \<Rightarrow> True
        | Some info \<Rightarrow>
            (\<forall>v\<in>set (js_slice (versions info) (getVersionSlice p st)).
               case v of None \<Rightarrow> True | Some l \<Rightarrow> l = [] \<or> cell propStats vendor l \<noteq> None))"

text \<open>
  Two vendor tables agree from era index \<open>k\<close> on: the same vendors in the same order with
  the same prefixes, and version lists that are equal from position \<open>k\<close>.
\<close>

definition agree_from :: "nat \<Rightarrow> vendor_info obj \<Rightarrow> vendor_info obj \<Rightarrow> bool" where
  "agree_from k vdb vdb' =
     list_all2 (\<lambda>(n, i) (n', i'). n = n' \<and> prefix i = prefix i' \<and>
                  drop k (versions i) = drop k (versions i')) vdb vdb'"

text \<open>
  The version entries from era index \<open>k\<close> to the end. The index \<open>-1\<close>, which
  \<open>getVersionSlice\<close> gives when it finds no era, counts from the end: the last entry.
\<close>

definition from_start :: "int \<Rightarrow> 'a list \<Rightarrow> 'a list" where
  "from_start k vs = (if 0 \<le> k then drop (nat k) vs else drop (length vs - 1) vs)"

text \<open>
  The vendors of the effective vendor list, in order, each with its entry of the vendor
  table.
\<close>

definition vendor_infos :: "prefs \<Rightarrow> state \<Rightarrow> (string \<times> vendor_info) list" where
  "vendor_infos p st =
     concat (map (\<lambda>vendor.
                case obj_get (case vendorsDB st of Some v \<Rightarrow> v | None \<Rightarrow> []) vendor of
                  None \<Rightarrow> []
                | Some i \<Rightarrow> [(vendor, i)])
             (getVendorsList p st))"


text \<open>
  A valid era identifier is the letter \<open>e\<close> followed by an integer in its usual decimal
  writing: an optional minus sign and at most 15 digits, with no leading zero and no
  \<open>-0\<close> (\<open>e-2\<close>, \<open>e0\<close>, \<open>e1\<close>). A valid \<open>eras\<close> section has distinct keys, as every
  object has, and every key is a valid era identifier.
\<close>

definition is_digit :: "char \<Rightarrow> bool" where
  "is_digit c = (48 \<le> (of_char c :: nat) \<and> (of_char c :: nat) \<le> 57)"

definition canonical_digits :: "string \<Rightarrow> bool" where
  "canonical_digits ds =
     (case ds of
        [] \<Rightarrow> False
      | c # r \<Rightarrow> list_all is_digit ds \<and> (c \<noteq> CHR ''0'' \<or> r = []) \<and> length ds \<le> 15)"

definition valid_era_id :: "string \<Rightarrow> bool" where
  "valid_era_id k =
     (case k of
        [] \<Rightarrow> False
      | e # r \<Rightarrow> e = CHR ''e'' \<and>
          (case r of
             [] \<Rightarrow> False
           | m # ds \<Rightarrow> if m = CHR ''-'' then canonical_digits ds \<and> ds \<noteq> ''0''
                      else canonical_digits r))"

definition valid_eras :: "string obj \<Rightarrow> bool" where
  "valid_eras es = (distinct (map fst es) \<and> list_all valid_era_id (map fst es))"

text \<open>
  The number of an era identifier, as the comparator of \<open>parseEra\<close> reads it, and the
  order it induces.
\<close>

definition era_number :: "string \<Rightarrow> int option" where
  "era_number k = parseInt (substr1 k)"

definition era_less :: "string \<Rightarrow> string \<Rightarrow> bool" where
  "era_less a b =
     (case (era_number a, era_number b) of (Some x, Some y) \<Rightarrow> x < y | _ \<Rightarrow> False)"

definition era_val :: "string \<Rightarrow> int" where
  "era_val k = (case era_number k of Some n \<Rightarrow> n | None \<Rightarrow> 0)"

text \<open>The value of a decimal digit and of a string of decimal digits.\<close>

definition dig :: "char \<Rightarrow> nat" where
  "dig c = of_char c - 48"

fun dval :: "string \<Rightarrow> nat" where
  "dval [] = 0"
| "dval (c # cs) = dig c * 10 ^ length cs + dval cs"

subsection \<open>Example data\<close>

text \<open>
  A small document in the shape of the Can I Use database: four vendors, two of them sharing
  a prefix, three eras listed out of order, two feature sections of \<open>cssSections\<close> and
  one that is not in the table.
\<close>

definition web_agents :: "agent obj" where
  "web_agents =
     [(''ie'', \<lparr>agent_prefix = ''-ms-'',
               agent_versions = [Some ''9'', Some ''10'', Some ''11'']\<rparr>),
      (''firefox'', \<lparr>agent_prefix = ''-moz-'',
               agent_versions = [Some ''27'', Some ''28'', Some ''29'']\<rparr>),
      (''chrome'', \<lparr>agent_prefix = ''-webkit-'',
               agent_versions = [Some ''32'', Some ''33'', Some ''34'']\<rparr>),
      (''safari'', \<lparr>agent_prefix = ''-webkit-'',
               agent_versions = [None, Some ''7'', None]\<rparr>)]"

definition transforms_stats :: stats_table where
  "transforms_stats =
     [(''ie'', [(''9'', ''y x''), (''10'', ''y''), (''11'', ''y'')]),
      (''firefox'', [(''27'', ''y x''), (''28'', ''y''), (''29'', ''y'')]),
      (''chrome'', [(''32'', ''y x''), (''33'', ''y x''), (''34'', ''y x'')]),
      (''safari'', [(''7'', ''y x'')])]"

definition transitions_stats :: stats_table where
  "transitions_stats =
     [(''ie'', [(''9'', ''n''), (''10'', ''y''), (''11'', ''y'')]),
      (''firefox'', [(''27'', ''y x''), (''28'', ''y''), (''29'', ''y'')]),
      (''chrome'', [(''32'', ''y x''), (''33'', ''y''), (''34'', ''y'')]),
      (''safari'', [(''7'', ''y x'')])]"

definition web_doc :: raw_db where
  "web_doc =
     \<lparr>agents = web_agents,
      cats = Some [(''CSS'', [''CSS'', ''CSS3''])],
      data =
        [(''transforms2d'', \<lparr>stats = transforms_stats\<rparr>),
         (''css-transitions'', \<lparr>stats = transitions_stats\<rparr>),
         (''png-alpha'', \<lparr>stats = []\<rparr>)],
      eras = [(''e0'', ''Current''), (''e-2'', ''2 versions back''),
              (''e-1'', ''Previous version'')]\<rparr>"

text \<open>A decoder that rejects every text, as \<open>JSON.parse\<close> rejects text that is not JSON.\<close>

definition no_json :: "string \<Rightarrow> raw_db option" where
  "no_json s = None"


definition web_state :: state where
  "web_state = snd (parseDB no_json (Document web_doc) init_state)"

definition web_prefs :: prefs where
  "web_prefs = \<lparr>enabled = True, vendors = Some [''all''], era = ''e-2''\<rparr>"

text \<open>The vendor table that \<open>parseVendors\<close> builds from \<open>web_agents\<close>.\<close>

definition web_vendors :: "vendor_info obj" where
  "web_vendors =
     [(''ie'', \<lparr>prefix = ''-ms-'', versions = [Some ''9'', Some ''10'', Some ''11'']\<rparr>),
      (''firefox'', \<lparr>prefix = ''-moz-'', versions = [Some ''27'', Some ''28'', Some ''29'']\<rparr>),
      (''chrome'', \<lparr>prefix = ''-webkit-'', versions = [Some ''32'', Some ''33'', Some ''34'']\<rparr>),
      (''safari'', \<lparr>prefix = ''-webkit-'', versions = [None, Some ''7'', None]\<rparr>)]"

text \<open>
  The same vendors with an incomplete support table: the section \<open>css-hyphens\<close> has no row
  for \<open>chrome\<close> and \<open>safari\<close>, and the row of \<open>safari\<close> in \<open>css3-boxsizing\<close> has
  no entry for its version \<open>7\<close>.
\<close>

definition hyphens_stats :: stats_table where
  "hyphens_stats =
     [(''ie'', [(''9'', ''n''), (''10'', ''y x''), (''11'', ''y x'')]),
      (''firefox'', [(''27'', ''y x''), (''28'', ''y x''), (''29'', ''y x'')])]"

definition boxsizing_stats :: stats_table where
  "boxsizing_stats =
     [(''ie'', [(''9'', ''y''), (''10'', ''y''), (''11'', ''y'')]),
      (''firefox'', [(''27'', ''y x''), (''28'', ''y x''), (''29'', ''y'')]),
      (''chrome'', [(''32'', ''y''), (''33'', ''y''), (''34'', ''y'')]),
      (''safari'', [(''6'', ''y x'')])]"

definition gap_doc :: raw_db where
  "gap_doc = web_doc\<lparr>data :=
        [(''css-hyphens'', \<lparr>stats = hyphens_stats\<rparr>),
         (''css3-boxsizing'', \<lparr>stats = boxsizing_stats\<rparr>)]\<rparr>"

definition gap_state :: state where
  "gap_state = snd (parseDB no_json (Document gap_doc) init_state)"




text \<open>
  A document whose eras are all in the future (no \<open>e-2\<close>), with a fifth vendor that has no
  version entry at all, and a preference naming an era the document does not have.
\<close>

definition future_doc :: raw_db where
  "future_doc = web_doc\<lparr>
     agents := web_agents @ [(''opera'', \<lparr>agent_prefix = ''-o-'', agent_versions = []\<rparr>)],
     eras := [(''e1'', ''Near future''), (''e3'', ''Farther future''), (''e2'', ''Future'')]\<rparr>"

definition future_state :: state where
  "future_state = snd (parseDB no_json (Document future_doc) init_state)"

definition old_era_prefs :: prefs where
  "old_era_prefs = \<lparr>enabled = True, vendors = None, era = ''e-9''\<rparr>"

text \<open>A vendor preference that starts with \<open>all\<close> and goes on.\<close>

definition all_chrome_prefs :: prefs where
  "all_chrome_prefs = \<lparr>enabled = True, vendors = Some [''all'', ''chrome''], era = ''e-2''\<rparr>"

text \<open>A vendor preference that names one known and one unknown vendor.\<close>

definition some_vendors_prefs :: prefs where
  "some_vendors_prefs = \<lparr>enabled = True, vendors = Some [''netscape'', ''firefox''], era = ''e-1''\<rparr>"




section \<open>Lemmas\<close>

subsection \<open>Host operations\<close>

lemma obj_get_obj_set: "obj_get (obj_set ob k v) k' = (if k' = k then Some v else obj_get ob k')"
  by (induction ob k v rule: obj_set.induct) (auto simp: obj_get_def)

lemma keys_obj_set: "set (map fst (obj_set ob k v)) = insert k (set (map fst ob))"
  by (induction ob k v rule: obj_set.induct) auto

lemma uniq_acc:
  "set (foldl (\<lambda>res v. if v \<in> set res then res else res @ [v]) acc xs) = set acc \<union> set xs
   \<and> (distinct acc \<longrightarrow> distinct (foldl (\<lambda>res v. if v \<in> set res then res else res @ [v]) acc xs))"
  by (induction xs arbitrary: acc) auto

lemma set_uniq: "set (uniq xs) = set xs"
  using uniq_acc [of "[]" xs] by (simp add: uniq_def)

lemma distinct_uniq: "distinct (uniq xs)"
  using uniq_acc [of "[]" xs] by (simp add: uniq_def)

lemma uniq_acc_distinct:
  "distinct (acc @ xs) \<Longrightarrow> foldl (\<lambda>res v. if v \<in> set res then res else res @ [v]) acc xs = acc @ xs"
  by (induction xs arbitrary: acc) auto

lemma uniq_distinct: "distinct xs \<Longrightarrow> uniq xs = xs"
  using uniq_acc_distinct [of "[]" xs] by (simp add: uniq_def)


lemma insort_cmp_key:
  "(\<And>y. y \<in> set ys \<Longrightarrow> (cmp x y \<le> 0) = (f x \<le> f y)) \<Longrightarrow> insort_cmp cmp x ys = insort_key f x ys"
  by (induction ys) auto

lemma js_sort_key:
  "(\<And>x y. x \<in> set xs \<Longrightarrow> y \<in> set xs \<Longrightarrow> (cmp x y \<le> 0) = (f x \<le> f y))
   \<Longrightarrow> js_sort cmp xs = sort_key f xs"
proof (induction xs)
  case Nil
  then show ?case by (simp add: js_sort_def)
next
  case (Cons a xs)
  have ih: "js_sort cmp xs = sort_key f xs" using Cons by simp
  have "insort_cmp cmp a (sort_key f xs) = insort_key f a (sort_key f xs)"
    by (rule insort_cmp_key) (use Cons.prems in auto)
  then show ?case using ih by (simp add: js_sort_def sort_key_def)
qed

lemma js_sort_length: "js_sort length_cmp xs = sort_key (\<lambda>s. - int (length s)) xs"
  by (rule js_sort_key) (auto simp: length_cmp_def)




subsection \<open>The loop over versions and the loop over vendors\<close>

lemma scan_passes: "passes P vendor v \<Longrightarrow> scanVersions P vendor (v # vs) = scanVersions P vendor vs"
  by (auto simp: passes_def split: option.splits)

lemma scan_append_passes:
  "\<forall>u\<in>set pre. passes P vendor u \<Longrightarrow> scanVersions P vendor (pre @ vs) = scanVersions P vendor vs"
  by (induction pre) (simp_all add: scan_passes del: scanVersions.simps(2))

lemma scan_error_TypeError: "scanVersions P vendor vs = Inl e \<Longrightarrow> e = TypeError"
  by (induction vs) (auto split: option.splits if_splits)

lemma scan_TypeError_iff:
  "(scanVersions P vendor vs = Inl TypeError) =
     (\<exists>pre l post. vs = pre @ Some l # post \<and> (\<forall>u\<in>set pre. passes P vendor u) \<and>
        l \<noteq> [] \<and> cell P vendor l = None)"
proof
  assume "scanVersions P vendor vs = Inl TypeError"
  then show "\<exists>pre l post. vs = pre @ Some l # post \<and> (\<forall>u\<in>set pre. passes P vendor u) \<and>
        l \<noteq> [] \<and> cell P vendor l = None"
  proof (induction vs)
    case Nil
    then show ?case by simp
  next
    case (Cons v vs)
    show ?case
    proof (cases "passes P vendor v")
      case True
      with Cons.prems have "scanVersions P vendor vs = Inl TypeError"
        by (simp add: scan_passes del: scanVersions.simps(2))
      from Cons.IH [OF this] obtain pre l post where
        h: "vs = pre @ Some l # post" "\<forall>u\<in>set pre. passes P vendor u" "l \<noteq> []" "cell P vendor l = None"
        by blast
      have "v # vs = (v # pre) @ Some l # post" using h(1) by simp
      moreover have "\<forall>u\<in>set (v # pre). passes P vendor u" using True h(2) by simp
      ultimately show ?thesis using h(3,4) by blast
    next
      case False
      then obtain l where l: "v = Some l" "l \<noteq> []" by (auto simp: passes_def split: option.splits)
      with Cons.prems False have "cell P vendor l = None"
        by (auto simp: passes_def split: option.splits if_splits)
      moreover have "v # vs = [] @ Some l # vs" using l by simp
      ultimately show ?thesis using l by (metis empty_iff list.set(1))
    qed
  qed
next
  assume "\<exists>pre l post. vs = pre @ Some l # post \<and> (\<forall>u\<in>set pre. passes P vendor u) \<and>
        l \<noteq> [] \<and> cell P vendor l = None"
  then obtain pre l post where
    h: "vs = pre @ Some l # post" "\<forall>u\<in>set pre. passes P vendor u" "l \<noteq> []" "cell P vendor l = None"
    by blast
  show "scanVersions P vendor vs = Inl TypeError"
    using h by (simp add: scan_append_passes)
qed

lemma obj_get_key: "(obj_get ob k \<noteq> None) = (k \<in> set (map fst ob))"
  by (simp add: obj_get_def map_of_eq_None_iff)

lemma set_intersection: "set (intersection xs ys) = set xs \<inter> set ys"
  by (auto simp: intersection_def set_uniq)

lemma getVendorsList_subset: "set (getVendorsList p st) \<subseteq> set (obj_keys (vendorsDB st))"
  by (auto simp: getVendorsList_def Let_def set_intersection split: option.splits list.splits)

lemma getVendorsList_known:
  assumes "vendorsDB st = Some vdb" "vendor \<in> set (getVendorsList p st)"
  shows "\<exists>info. obj_get vdb vendor = Some info"
proof -
  have "vendor \<in> set (map fst vdb)"
    using assms getVendorsList_subset [of p st] by (auto simp: obj_keys_def)
  then have "obj_get vdb vendor \<noteq> None" using obj_get_key [of vdb vendor] by blast
  then show ?thesis by blast
qed

lemma eachVendor_error: "eachVendor vdb P start vs acc = Inl e \<Longrightarrow> e = TypeError"
proof (induction vs arbitrary: acc)
  case Nil
  then show ?case by simp
next
  case (Cons vendor vs)
  then show ?case
    by (auto split: option.splits sum.splits dest: scan_error_TypeError)
qed

lemma eachVendor_Inl_iff:
  "(eachVendor vdb P start vs acc = Inl TypeError) =
     (\<exists>vendor\<in>set vs. case obj_get vdb vendor of
         None \<Rightarrow> True
       | Some info \<Rightarrow> scanVersions P vendor (js_slice (versions info) start) = Inl TypeError)"
proof (induction vs arbitrary: acc)
  case Nil
  then show ?case by simp
next
  case (Cons vendor vs)
  show ?case
  proof (cases "obj_get vdb vendor")
    case None
    then show ?thesis by simp
  next
    case (Some info)
    show ?thesis
    proof (cases "scanVersions P vendor (js_slice (versions info) start)")
      case (Inl e)
      then have "e = TypeError" by (rule scan_error_TypeError)
      with Inl Some show ?thesis by simp
    next
      case (Inr found)
      with Some show ?thesis using Cons.IH by simp
    qed
  qed
qed

lemma resolve_running:
  assumes "enabled p" "cssDB st = Some css" "js_in property css"
  shows "resolvePrefixes p st property =
     (case eachVendor (case vendorsDB st of Some v \<Rightarrow> v | None \<Rightarrow> [])
             (case obj_get css property of Some t \<Rightarrow> t | None \<Rightarrow> [])
             (getVersionSlice p st) (getVendorsList p st) [] of
        Inl e \<Rightarrow> Inl e
      | Inr prefixes \<Rightarrow> Inr (Some (js_sort length_cmp (uniq prefixes))))"
  using assms by (simp add: resolvePrefixes_def Let_def)

lemma resolve_not_null:
  assumes "enabled p" "cssDB st = Some css" "js_in property css"
  shows "resolvePrefixes p st property = Inl TypeError \<or> (\<exists>ps. resolvePrefixes p st property = Inr (Some ps))"
proof (cases "eachVendor (case vendorsDB st of Some v \<Rightarrow> v | None \<Rightarrow> [])
             (case obj_get css property of Some t \<Rightarrow> t | None \<Rightarrow> [])
             (getVersionSlice p st) (getVendorsList p st) []")
  case (Inl e)
  then have "e = TypeError" by (rule eachVendor_error)
  with Inl show ?thesis by (simp add: resolve_running [OF assms])
next
  case (Inr prefixes)
  then show ?thesis by (simp add: resolve_running [OF assms])
qed

lemma scan_complete:
  "\<forall>v\<in>set vs. case v of None \<Rightarrow> True | Some l \<Rightarrow> l = [] \<or> cell P vendor l \<noteq> None
   \<Longrightarrow> scanVersions P vendor vs \<noteq> Inl TypeError"
  by (induction vs) (auto split: option.splits)

subsection \<open>The starting index, the slice and the vendor list\<close>

lemma index_from_notin: "x \<notin> set xs \<Longrightarrow> index_from xs x i = - 1"
  by (induction xs arbitrary: i) auto

lemma index_from_in:
  "x \<in> set xs \<Longrightarrow>
   \<exists>n. index_from xs x i = int (i + n) \<and> n < length xs \<and> xs ! n = x \<and> (\<forall>j<n. xs ! j \<noteq> x)"
proof (induction xs arbitrary: i)
  case Nil
  then show ?case by simp
next
  case (Cons y ys)
  show ?case
  proof (cases "y = x")
    case True
    then show ?thesis by (intro exI [of _ 0]) simp
  next
    case False
    with Cons.prems have "x \<in> set ys" by simp
    from Cons.IH [OF this, of "Suc i"] obtain n where
      n: "index_from ys x (Suc i) = int (Suc i + n)" "n < length ys" "ys ! n = x" "\<forall>j<n. ys ! j \<noteq> x"
      by blast
    have "\<forall>j<Suc n. (y # ys) ! j \<noteq> x"
    proof (intro allI impI)
      fix j assume "j < Suc n"
      then show "(y # ys) ! j \<noteq> x" using False n(4) by (cases j) auto
    qed
    with False n show ?thesis by (intro exI [of _ "Suc n"]) simp
  qed
qed

lemma lodash_indexOf_in:
  "x \<in> set xs \<Longrightarrow>
   \<exists>n. lodash_indexOf (Some xs) x = int n \<and> n < length xs \<and> xs ! n = x \<and> (\<forall>j<n. xs ! j \<noteq> x)"
  using index_from_in [of x xs 0] by (simp add: lodash_indexOf_def)

lemma lodash_indexOf_notin: "x \<notin> set xs \<Longrightarrow> lodash_indexOf (Some xs) x = - 1"
  by (simp add: lodash_indexOf_def index_from_notin)

lemma getVersionSlice_found:
  assumes "erasDB st = Some eo" "era p \<in> set eo \<or> ''e-2'' \<in> set eo"
  shows "\<exists>n. getVersionSlice p st = int n \<and> n < length eo \<and>
            eo ! n = (if era p \<in> set eo then era p else ''e-2'') \<and> (\<forall>j<n. eo ! j \<noteq> eo ! n)"
proof (cases "era p \<in> set eo")
  case True
  from lodash_indexOf_in [OF True] obtain n where
    n: "lodash_indexOf (Some eo) (era p) = int n" "n < length eo" "eo ! n = era p" "\<forall>j<n. eo ! j \<noteq> era p"
    by blast
  then have "getVersionSlice p st = int n" using assms(1) by (simp add: getVersionSlice_def)
  with n True show ?thesis by auto
next
  case False
  with assms(2) have e: "''e-2'' \<in> set eo" by simp
  from lodash_indexOf_in [OF e] obtain n where
    n: "lodash_indexOf (Some eo) ''e-2'' = int n" "n < length eo" "eo ! n = ''e-2''" "\<forall>j<n. eo ! j \<noteq> ''e-2''"
    by blast
  then have "getVersionSlice p st = int n"
    using assms(1) False by (simp add: getVersionSlice_def lodash_indexOf_notin)
  with n False show ?thesis by auto
qed

lemma js_slice_nonneg: "0 \<le> k \<Longrightarrow> js_slice xs k = drop (nat k) xs"
  by (simp add: js_slice_def)

lemma js_slice_minus1: "vs \<noteq> [] \<Longrightarrow> js_slice vs (- 1) = [last vs]"
proof -
  assume ne: "vs \<noteq> []"
  then have "nat (max (int (length vs) + - 1) 0) = length vs - 1" by (cases vs) auto
  then have "js_slice vs (- 1) = drop (length vs - 1) vs" by (simp add: js_slice_def)
  also have "\<dots> = [last vs]" using ne
    by (metis append_butlast_last_id append_eq_conv_conj length_butlast)
  finally show ?thesis .
qed

lemma agree_from_keys: "agree_from k vdb vdb' \<Longrightarrow> map fst vdb = map fst vdb'"
  unfolding agree_from_def by (induction vdb vdb' rule: list_all2_induct) auto

lemma agree_from_get:
  "agree_from k vdb vdb' \<Longrightarrow>
   (case (obj_get vdb v, obj_get vdb' v) of
      (None, None) \<Rightarrow> True
    | (Some i, Some i') \<Rightarrow> prefix i = prefix i' \<and> drop k (versions i) = drop k (versions i')
    | _ \<Rightarrow> False)"
  unfolding agree_from_def obj_get_def
  by (induction vdb vdb' rule: list_all2_induct) (auto split: option.splits)

lemma eachVendor_agree:
  assumes "agree_from (nat k) vdb vdb'" "0 \<le> k"
  shows "eachVendor vdb' P k vs acc = eachVendor vdb P k vs acc"
proof (induction vs arbitrary: acc)
  case Nil
  then show ?case by simp
next
  case (Cons v vs)
  from agree_from_get [OF assms(1), of v]
  show ?case using Cons.IH assms(2)
    by (auto simp: js_slice_nonneg split: option.splits sum.splits)
qed

lemma resolve_agree:
  assumes "vendorsDB st = Some vdb" "agree_from (nat (getVersionSlice p st)) vdb vdb'"
    "0 \<le> getVersionSlice p st"
  shows "resolvePrefixes p (st\<lparr>vendorsDB := Some vdb'\<rparr>) property = resolvePrefixes p st property"
proof -
  have k: "getVersionSlice p (st\<lparr>vendorsDB := Some vdb'\<rparr>) = getVersionSlice p st"
    by (simp add: getVersionSlice_def Let_def)
  have v: "getVendorsList p (st\<lparr>vendorsDB := Some vdb'\<rparr>) = getVendorsList p st"
    using agree_from_keys [OF assms(2)] assms(1) by (simp add: getVendorsList_def obj_keys_def)
  show ?thesis
    using assms(1) eachVendor_agree [OF assms(2,3)]
    by (auto simp: resolvePrefixes_def k v Let_def split: option.splits)
qed

subsection \<open>The scan when no cell is missing\<close>

lemma index_from_ge: "index_from xs x i = - 1 \<or> int i \<le> index_from xs x i"
proof (induction xs arbitrary: i)
  case Nil
  then show ?case by simp
next
  case (Cons y ys)
  from Cons [of "Suc i"] show ?case by auto
qed

lemma lodash_indexOf_ge: "- 1 \<le> lodash_indexOf arr x"
proof (cases arr)
  case None
  then show ?thesis by (simp add: lodash_indexOf_def)
next
  case (Some xs)
  with index_from_ge [of xs x 0] show ?thesis by (auto simp: lodash_indexOf_def)
qed

lemma getVersionSlice_ge: "- 1 \<le> getVersionSlice p st"
  by (simp add: getVersionSlice_def Let_def lodash_indexOf_ge)

lemma js_slice_from_start: "- 1 \<le> k \<Longrightarrow> js_slice vs k = from_start k vs"
proof (cases "0 \<le> k")
  case True
  then show ?thesis by (simp add: js_slice_def from_start_def)
next
  case False
  assume "- 1 \<le> k"
  with False have k: "k = - 1" by simp
  have "nat (max (int (length vs) + - 1) 0) = length vs - 1" by (cases vs) auto
  then show ?thesis by (simp add: k js_slice_def from_start_def)
qed

lemma slice_from_start: "js_slice vs (getVersionSlice p st) = from_start (getVersionSlice p st) vs"
  by (rule js_slice_from_start [OF getVersionSlice_ge])


lemma vendor_known:
  assumes "vendor \<in> set (getVendorsList p st)"
  shows "\<exists>info. obj_get (case vendorsDB st of Some v \<Rightarrow> v | None \<Rightarrow> []) vendor = Some info"
proof (cases "vendorsDB st")
  case None
  with assms getVendorsList_subset [of p st] show ?thesis by (simp add: obj_keys_def)
next
  case (Some vdb)
  from getVendorsList_known [OF Some assms] Some show ?thesis by simp
qed

lemma vendor_infos_iff:
  "((vendor, i) \<in> set (vendor_infos p st)) =
     (vendor \<in> set (getVendorsList p st) \<and>
      obj_get (case vendorsDB st of Some v \<Rightarrow> v | None \<Rightarrow> []) vendor = Some i)"
  by (auto simp: vendor_infos_def split: option.splits)


subsection \<open>parseDB\<close>

lemma parseDB_success:
  assumes ok: "parseDB decode arg st = (Inr (), st')"
  shows "\<exists>d css. (arg = Document d \<or> (\<exists>s. arg = Text s \<and> decode s = Some d)) \<and>
           parseCSS d = Inr css \<and>
           st' = \<lparr>cssDB = Some css, vendorsDB = Some (parseVendors d), erasDB = Some (parseEra d)\<rparr>"
proof -
  from ok obtain d where
    d: "(case arg of Text s \<Rightarrow> decode s | Document d \<Rightarrow> Some d) = Some d"
    by (cases "case arg of Text s \<Rightarrow> decode s | Document d \<Rightarrow> Some d") (auto simp: parseDB_def)
  from ok d obtain css where css: "parseCSS d = Inr css"
    by (cases "parseCSS d") (auto simp: parseDB_def Let_def)
  from ok d css have
    "st' = \<lparr>cssDB = Some css, vendorsDB = Some (parseVendors d), erasDB = Some (parseEra d)\<rparr>"
    by (auto simp: parseDB_def Let_def)
  moreover from d have "arg = Document d \<or> (\<exists>s. arg = Text s \<and> decode s = Some d)"
    by (cases arg) auto
  ultimately show ?thesis using css by blast
qed

subsection \<open>The table of feature sections and parseCSS\<close>

lemma cssSections_keys_distinct: "distinct (map fst cssSections)"
  by code_simp

lemma cssSections_disjoint_exec:
  "list_all (\<lambda>(n1, ids1). list_all (\<lambda>(n2, ids2). n1 = n2 \<or> list_all (\<lambda>a. a \<notin> set ids2) ids1)
      cssSections) cssSections"
  by code_simp

lemma cssSections_no_inherited_exec:
  "list_all (\<lambda>(n, ids). list_all (\<lambda>a. a \<notin> set Object_prototype_names) ids) cssSections"
  by code_simp

lemma cssSections_disjoint:
  assumes "(n1, ids1) \<in> set cssSections" "(n2, ids2) \<in> set cssSections" "n1 \<noteq> n2"
    "a \<in> set ids1"
  shows "a \<notin> set ids2"
proof -
  from cssSections_disjoint_exec assms(1) have
    "list_all (\<lambda>(n2, ids2). n1 = n2 \<or> list_all (\<lambda>a. a \<notin> set ids2) ids1) cssSections"
    unfolding list_all_iff by fast
  with assms(2) have "n1 = n2 \<or> list_all (\<lambda>a. a \<notin> set ids2) ids1"
    unfolding list_all_iff by fast
  with assms(3,4) show ?thesis unfolding list_all_iff by fast
qed

lemma cssSections_no_inherited:
  assumes "(n, ids) \<in> set cssSections" "a \<in> set ids"
  shows "a \<notin> set Object_prototype_names"
proof -
  from cssSections_no_inherited_exec assms(1) have
    "list_all (\<lambda>a. a \<notin> set Object_prototype_names) ids"
    unfolding list_all_iff by fast
  with assms(2) show ?thesis unfolding list_all_iff by fast
qed

lemma cssSections_no_undefined_exec:
  "list_all (\<lambda>(n, ids). ''undefined'' \<notin> set ids) cssSections"
  by code_simp

lemma cssSections_no_undefined:
  assumes "(n, ids) \<in> set cssSections" "a \<in> set ids"
  shows "a \<noteq> ''undefined''"
proof -
  from cssSections_no_undefined_exec assms(1) have "''undefined'' \<notin> set ids"
    unfolding list_all_iff by fast
  with assms(2) show ?thesis by blast
qed

lemma cssSections_lookup:
  "obj_get cssSections n = Some kws \<Longrightarrow> (n, kws) \<in> set cssSections"
  by (simp add: obj_get_def map_of_SomeD)

lemma cssSections_lookup_unique:
  "(n, ids) \<in> set cssSections \<Longrightarrow> obj_get cssSections n = Some ids"
  using cssSections_keys_distinct by (simp add: obj_get_def)

lemma same_section_membership:
  assumes "(name, ids) \<in> set cssSections" "a \<in> set ids" "b \<in> set ids"
  shows "(a \<in> set (each_keyword n)) = (b \<in> set (each_keyword n))"
proof (cases "obj_get cssSections n")
  case None
  have "a \<noteq> ''undefined''" by (rule cssSections_no_undefined [OF assms(1,2)])
  moreover have "b \<noteq> ''undefined''" by (rule cssSections_no_undefined [OF assms(1,3)])
  ultimately show ?thesis using None
    by (auto simp: each_keyword_def split: option.splits)
next
  case (Some kws)
  then have k: "each_keyword n = kws" by (simp add: each_keyword_def)
  show ?thesis
  proof (cases "n = name")
    case True
    with Some cssSections_lookup_unique [OF assms(1)] have "kws = ids" by simp
    with assms(2,3) k show ?thesis by simp
  next
    case False
    note m = cssSections_lookup [OF Some]
    from False have ne: "name \<noteq> n" by simp
    have "a \<notin> set kws" by (rule cssSections_disjoint [OF assms(1) m ne assms(2)])
    moreover have "b \<notin> set kws" by (rule cssSections_disjoint [OF assms(1) m ne assms(3)])
    ultimately show ?thesis using k by simp
  qed
qed

lemma store_stats_get:
  "obj_get (foldl (\<lambda>out' kw. obj_set out' kw s) out kws) k =
     (if k \<in> set kws then Some s else obj_get out k)"
  by (induction kws arbitrary: out) (auto simp: obj_get_obj_set)

lemma parse_sections_same:
  assumes "(name, ids) \<in> set cssSections" "a \<in> set ids" "b \<in> set ids"
  shows "obj_get out a = obj_get out b \<Longrightarrow>
    obj_get (foldl (\<lambda>out (name, sec).
                  if js_in name cssSections
                  then foldl (\<lambda>out' kw. obj_set out' kw (stats sec)) out (each_keyword name)
                  else out) out secs) a
    = obj_get (foldl (\<lambda>out (name, sec).
                  if js_in name cssSections
                  then foldl (\<lambda>out' kw. obj_set out' kw (stats sec)) out (each_keyword name)
                  else out) out secs) b"
proof (induction secs arbitrary: out)
  case Nil
  then show ?case by simp
next
  case (Cons s secs)
  obtain n sec where s: "s = (n, sec)" by (cases s)
  let ?out' = "if js_in n cssSections
                  then foldl (\<lambda>out' kw. obj_set out' kw (stats sec)) out (each_keyword n)
                  else out"
  have "obj_get ?out' a = obj_get ?out' b"
    using same_section_membership [OF assms, of n] Cons.prems
    by (simp add: store_stats_get)
  from Cons.IH [OF this] show ?case by (simp add: s)
qed

lemma parseCSS_same:
  assumes "(name, ids) \<in> set cssSections" "a \<in> set ids" "b \<in> set ids" "parseCSS d = Inr css"
  shows "obj_get css a = obj_get css b"
proof -
  have "obj_get ([] :: stats_table obj) a = obj_get [] b" by (simp add: obj_get_def)
  from parse_sections_same [OF assms(1,2,3) this, of "data d"] assms(4)
  show ?thesis by (auto simp: parseCSS_def split: option.splits)
qed

lemma resolve_same_entry:
  assumes "\<And>css. cssDB st = Some css \<Longrightarrow> obj_get css a = obj_get css b"
    "a \<notin> set Object_prototype_names" "b \<notin> set Object_prototype_names"
  shows "resolvePrefixes p st a = resolvePrefixes p st b"
  using assms by (auto simp: resolvePrefixes_def js_in_def Let_def split: option.splits)

subsection \<open>Era identifiers and parseEra\<close>

lemma digit_of_10: "is_digit c \<Longrightarrow> digit_of 10 c = Some (dig c)"
  by (auto simp: is_digit_def digit_of_def dig_def Let_def)

lemma dig_less: "is_digit c \<Longrightarrow> dig c < 10"
  by (auto simp: is_digit_def dig_def)

lemma dig_inj: "is_digit c \<Longrightarrow> is_digit c' \<Longrightarrow> dig c = dig c' \<Longrightarrow> c = c'"
proof -
  assume a: "is_digit c" "is_digit c'" "dig c = dig c'"
  then have "(of_char c :: nat) = of_char c'" unfolding is_digit_def dig_def by linarith
  then show "c = c'" by simp
qed

lemma is_digit_not_space: "is_digit c \<Longrightarrow> \<not> is_space c"
  by (auto simp: is_digit_def is_space_def)

lemma is_digit_not_sign:
  "is_digit c \<Longrightarrow> c \<noteq> CHR ''-'' \<and> c \<noteq> CHR ''+'' \<and> c \<noteq> CHR ''x'' \<and> c \<noteq> CHR ''X''"
  by (auto simp: is_digit_def)

lemma zero_is_digit: "dig CHR ''0'' = 0" "is_digit CHR ''0''"
  by (simp_all add: dig_def is_digit_def)
lemma digits_value_dval:
  "list_all is_digit ds \<Longrightarrow>
   foldl (\<lambda>a c. 10 * a + (case digit_of 10 c of Some v \<Rightarrow> v | None \<Rightarrow> 0)) a ds
     = a * 10 ^ length ds + dval ds"
proof (induction ds arbitrary: a)
  case Nil
  then show ?case by simp
next
  case (Cons c cs)
  let ?f = "\<lambda>a c. 10 * a + (case digit_of 10 c of Some v \<Rightarrow> v | None \<Rightarrow> 0)"
  from Cons.prems have c: "digit_of 10 c = Some (dig c)" and r: "list_all is_digit cs"
    by (simp_all add: digit_of_10)
  have "foldl ?f a (c # cs) = foldl ?f (10 * a + dig c) cs" by (simp add: c)
  also have "\<dots> = (10 * a + dig c) * 10 ^ length cs + dval cs" by (rule Cons.IH [OF r])
  also have "\<dots> = a * 10 ^ length (c # cs) + dval (c # cs)" by (simp add: algebra_simps)
  finally show ?case .
qed

lemma dval_upper: "list_all is_digit ds \<Longrightarrow> dval ds < 10 ^ length ds"
proof (induction ds)
  case Nil
  then show ?case by simp
next
  case (Cons c cs)
  let ?B = "(10::nat) ^ length cs"
  from Cons have "dig c \<le> 9" and ih: "dval cs < ?B"
    using dig_less [of c] by simp_all
  then have "dig c * ?B \<le> 9 * ?B" by simp
  moreover have "(10::nat) ^ length (c # cs) = 9 * ?B + ?B" by simp
  moreover have "dval (c # cs) = dig c * ?B + dval cs" by simp
  ultimately show ?case using ih by linarith
qed

lemma dval_lower:
  "is_digit c \<Longrightarrow> c \<noteq> CHR ''0'' \<Longrightarrow> 10 ^ length cs \<le> dval (c # cs)"
proof -
  assume a: "is_digit c" "c \<noteq> CHR ''0''"
  have "dig c \<noteq> 0"
  proof
    assume "dig c = 0"
    then have "dig c = dig CHR ''0''" by (simp add: zero_is_digit)
    from dig_inj [OF a(1) zero_is_digit(2) this] a(2) show False by simp
  qed
  then have "(10::nat) ^ length cs \<le> dig c * 10 ^ length cs" by simp
  then show ?thesis unfolding dval.simps by (rule trans_le_add1)
qed

lemma dval_inj_same_length:
  "length xs = length ys \<Longrightarrow> list_all is_digit xs \<Longrightarrow> list_all is_digit ys \<Longrightarrow>
   dval xs = dval ys \<Longrightarrow> xs = ys"
proof (induction xs ys rule: list_induct2)
  case Nil
  then show ?case by simp
next
  case (Cons x xs y ys)
  let ?B = "(10::nat) ^ length xs"
  have ux: "dval xs < ?B" using Cons.prems(1) by (simp add: dval_upper)
  have uy: "dval ys < ?B" using Cons.prems(2) Cons.hyps dval_upper [of ys] by simp
  have e: "dig x * ?B + dval xs = dig y * ?B + dval ys"
    using Cons.prems(3) Cons.hyps by simp
  have "(dig x * ?B + dval xs) div ?B = dig x" using ux by simp
  moreover have "(dig y * ?B + dval ys) div ?B = dig y" using uy by simp
  ultimately have d: "dig x = dig y" using e by simp
  with e have v: "dval xs = dval ys" by simp
  from d Cons.prems(1,2) have "x = y" by (auto intro: dig_inj)
  moreover from Cons.IH v Cons.prems(1,2) have "xs = ys" by simp
  ultimately show ?case by simp
qed

lemma canonical_all_digits: "canonical_digits ds \<Longrightarrow> list_all is_digit ds \<and> ds \<noteq> []"
  by (auto simp: canonical_digits_def split: list.splits)

lemma canonical_length_bounds:
  assumes "canonical_digits ds"
  shows "dval ds < 10 ^ length ds \<and> (ds = ''0'' \<or> 10 ^ (length ds - 1) \<le> dval ds)"
proof -
  from assms obtain c r where ds: "ds = c # r" and a: "list_all is_digit ds" and
    z: "c \<noteq> CHR ''0'' \<or> r = []"
    by (auto simp: canonical_digits_def split: list.splits)
  have u: "dval ds < 10 ^ length ds" using a by (rule dval_upper)
  have "ds = ''0'' \<or> 10 ^ (length ds - 1) \<le> dval ds"
  proof (cases "c = CHR ''0''")
    case True
    with z ds show ?thesis by simp
  next
    case False
    from a ds have "is_digit c" by simp
    from dval_lower [OF this False, of r] ds show ?thesis by simp
  qed
  with u show ?thesis by simp
qed

lemma canonical_longer_greater:
  assumes "canonical_digits us" "canonical_digits ws" "length us < length ws"
  shows "dval us < dval ws"
proof -
  from canonical_all_digits [OF assms(1)] have nu: "us \<noteq> []" by simp
  with assms(3) have "ws \<noteq> ''0''" by (cases us) auto
  with canonical_length_bounds [OF assms(2)]
  have w: "10 ^ (length ws - 1) \<le> dval ws" by simp
  from canonical_length_bounds [OF assms(1)] have u: "dval us < 10 ^ length us" by simp
  from assms(3) have "length us \<le> length ws - 1" by simp
  then have "(10::nat) ^ length us \<le> 10 ^ (length ws - 1)" by (rule power_increasing) simp
  with w u show ?thesis by linarith
qed

lemma canonical_inj:
  assumes "canonical_digits xs" "canonical_digits ys" "dval xs = dval ys"
  shows "xs = ys"
proof -
  have "\<not> length xs < length ys"
    using canonical_longer_greater [OF assms(1,2)] assms(3) by auto
  moreover have "\<not> length ys < length xs"
    using canonical_longer_greater [OF assms(2,1)] assms(3) by auto
  ultimately have l: "length xs = length ys" by simp
  from canonical_all_digits [OF assms(1)] have ax: "list_all is_digit xs" by simp
  from canonical_all_digits [OF assms(2)] have ay: "list_all is_digit ys" by simp
  show ?thesis by (rule dval_inj_same_length [OF l ax ay assms(3)])
qed

lemma canonical_zero: "canonical_digits ds \<Longrightarrow> dval ds = 0 \<Longrightarrow> ds = ''0''"
proof -
  assume c: "canonical_digits ds" and z: "dval ds = 0"
  have "canonical_digits ''0''" by (simp add: canonical_digits_def zero_is_digit)
  moreover have "dval ''0'' = 0" by (simp add: zero_is_digit)
  ultimately show ?thesis using canonical_inj [OF c, of "''0''"] z by simp
qed

lemma parseInt_digits:
  assumes "canonical_digits ds"
  shows "parseInt ds = Some (int (dval ds))"
proof -
  from assms obtain c r where ds: "ds = c # r" and a: "list_all is_digit ds"
    by (auto simp: canonical_digits_def split: list.splits)
  from a ds have c: "is_digit c" by simp
  have s1: "dropWhile is_space ds = ds" using ds is_digit_not_space [OF c] by simp
  have sg: "c \<noteq> CHR ''-''" "c \<noteq> CHR ''+''" using is_digit_not_sign [OF c] by simp_all
  have hex: "\<not> (case ds of a # b # _ \<Rightarrow> a = CHR ''0'' \<and> (b = CHR ''x'' \<or> b = CHR ''X'') | _ \<Rightarrow> False)"
  proof (cases r)
    case Nil
    with ds show ?thesis by simp
  next
    case (Cons b r')
    with a ds have "is_digit b" by simp
    from is_digit_not_sign [OF this] Cons ds show ?thesis by simp
  qed
  have tw: "takeWhile (\<lambda>c. digit_of 10 c \<noteq> None) ds = ds"
    using a by (simp add: takeWhile_eq_all_conv list_all_iff digit_of_10)
  have dv: "digits_value 10 ds = dval ds"
    using digits_value_dval [OF a, of 0] by (simp add: digits_value_def)
  show ?thesis
    unfolding parseInt_def s1 Let_def
    using ds sg hex tw dv by (simp add: ds)
qed

lemma parseInt_minus_digits:
  assumes "canonical_digits ds"
  shows "parseInt (CHR ''-'' # ds) = Some (- int (dval ds))"
proof -
  from assms obtain c r where ds: "ds = c # r" and a: "list_all is_digit ds"
    by (auto simp: canonical_digits_def split: list.splits)
  from a ds have c: "is_digit c" by simp
  have s1: "dropWhile is_space (CHR ''-'' # ds) = CHR ''-'' # ds" by (simp add: is_space_def)
  have hex: "\<not> (case ds of a # b # _ \<Rightarrow> a = CHR ''0'' \<and> (b = CHR ''x'' \<or> b = CHR ''X'') | _ \<Rightarrow> False)"
  proof (cases r)
    case Nil
    with ds show ?thesis by simp
  next
    case (Cons b r')
    with a ds have "is_digit b" by simp
    from is_digit_not_sign [OF this] Cons ds show ?thesis by simp
  qed
  have tw: "takeWhile (\<lambda>c. digit_of 10 c \<noteq> None) ds = ds"
    using a by (simp add: takeWhile_eq_all_conv list_all_iff digit_of_10)
  have dv: "digits_value 10 ds = dval ds"
    using digits_value_dval [OF a, of 0] by (simp add: digits_value_def)
  show ?thesis
    unfolding parseInt_def s1 Let_def
    using hex tw dv by (simp add: ds)
qed

lemma era_number_valid:
  assumes "valid_era_id k"
  shows "(\<exists>ds. k = CHR ''e'' # ds \<and> canonical_digits ds \<and> era_number k = Some (int (dval ds)))
       \<or> (\<exists>ds. k = CHR ''e'' # CHR ''-'' # ds \<and> canonical_digits ds \<and> ds \<noteq> ''0'' \<and>
              era_number k = Some (- int (dval ds)))"
proof -
  from assms obtain m ds where k: "k = CHR ''e'' # m # ds" and
    v: "if m = CHR ''-'' then canonical_digits ds \<and> ds \<noteq> ''0'' else canonical_digits (m # ds)"
    by (auto simp: valid_era_id_def split: list.splits)
  show ?thesis
  proof (cases "m = CHR ''-''")
    case True
    with v have c: "canonical_digits ds" "ds \<noteq> ''0''" by simp_all
    have "era_number k = Some (- int (dval ds))"
      using parseInt_minus_digits [OF c(1)] by (simp add: era_number_def substr1_def k True)
    with c k True show ?thesis by blast
  next
    case False
    with v have c: "canonical_digits (m # ds)" by simp
    have "era_number k = Some (int (dval (m # ds)))"
      using parseInt_digits [OF c] by (simp add: era_number_def substr1_def k)
    with c k show ?thesis by blast
  qed
qed

lemma era_number_Some: "valid_era_id k \<Longrightarrow> \<exists>n. era_number k = Some n"
  using era_number_valid [of k] by auto

lemma era_number_inj:
  assumes "valid_era_id a" "valid_era_id b" "era_number a = era_number b"
  shows "a = b"
proof -
  note A = era_number_valid [OF assms(1)]
  note B = era_number_valid [OF assms(2)]
  from A show ?thesis
  proof
    assume "\<exists>ds. a = CHR ''e'' # ds \<and> canonical_digits ds \<and> era_number a = Some (int (dval ds))"
    then obtain x where x: "a = CHR ''e'' # x" "canonical_digits x" "era_number a = Some (int (dval x))"
      by blast
    from B show ?thesis
    proof
      assume "\<exists>ds. b = CHR ''e'' # ds \<and> canonical_digits ds \<and> era_number b = Some (int (dval ds))"
      then obtain y where y: "b = CHR ''e'' # y" "canonical_digits y" "era_number b = Some (int (dval y))"
        by blast
      from x(3) y(3) assms(3) have "dval x = dval y" by simp
      from canonical_inj [OF x(2) y(2) this] x(1) y(1) show ?thesis by simp
    next
      assume "\<exists>ds. b = CHR ''e'' # CHR ''-'' # ds \<and> canonical_digits ds \<and> ds \<noteq> ''0'' \<and>
              era_number b = Some (- int (dval ds))"
      then obtain y where y: "canonical_digits y" "y \<noteq> ''0''" "era_number b = Some (- int (dval y))"
        by blast
      from x(3) y(3) assms(3) have "dval y = 0" by simp
      from canonical_zero [OF y(1) this] y(2) show ?thesis by simp
    qed
  next
    assume "\<exists>ds. a = CHR ''e'' # CHR ''-'' # ds \<and> canonical_digits ds \<and> ds \<noteq> ''0'' \<and>
              era_number a = Some (- int (dval ds))"
    then obtain x where x: "a = CHR ''e'' # CHR ''-'' # x" "canonical_digits x" "x \<noteq> ''0''"
      "era_number a = Some (- int (dval x))"
      by blast
    from B show ?thesis
    proof
      assume "\<exists>ds. b = CHR ''e'' # ds \<and> canonical_digits ds \<and> era_number b = Some (int (dval ds))"
      then obtain y where y: "era_number b = Some (int (dval y))" by blast
      from x(4) y assms(3) have "dval x = 0" by simp
      from canonical_zero [OF x(2) this] x(3) show ?thesis by simp
    next
      assume "\<exists>ds. b = CHR ''e'' # CHR ''-'' # ds \<and> canonical_digits ds \<and> ds \<noteq> ''0'' \<and>
              era_number b = Some (- int (dval ds))"
      then obtain y where y: "b = CHR ''e'' # CHR ''-'' # y" "canonical_digits y"
        "era_number b = Some (- int (dval y))"
        by blast
      from x(4) y(3) assms(3) have "dval x = dval y" by simp
      from canonical_inj [OF x(2) y(2) this] x(1) y(1) show ?thesis by simp
    qed
  qed
qed
lemma era_val_inj_on: "\<forall>k\<in>A. valid_era_id k \<Longrightarrow> inj_on era_val A"
proof (rule inj_onI)
  fix a b assume v: "\<forall>k\<in>A. valid_era_id k" and a: "a \<in> A" and b: "b \<in> A"
    and e: "era_val a = era_val b"
  from v a b have va: "valid_era_id a" and vb: "valid_era_id b" by simp_all
  from era_number_Some [OF va] era_number_Some [OF vb] e
  have "era_number a = era_number b" by (auto simp: era_val_def)
  then show "a = b" by (rule era_number_inj [OF va vb])
qed

lemma era_cmp_valid:
  "valid_era_id a \<Longrightarrow> valid_era_id b \<Longrightarrow> (era_cmp a b \<le> 0) = (era_val a \<le> era_val b)"
  using era_number_Some [of a] era_number_Some [of b]
  by (auto simp: era_cmp_def era_val_def era_number_def)

lemma era_less_valid:
  "valid_era_id a \<Longrightarrow> valid_era_id b \<Longrightarrow> era_less a b = (era_val a < era_val b)"
  using era_number_Some [of a] era_number_Some [of b]
  by (auto simp: era_less_def era_val_def)

lemma parseEra_sort_key:
  assumes "valid_eras (eras d)"
  shows "parseEra d = sort_key era_val (map fst (eras d))"
proof -
  have "js_sort era_cmp (map fst (eras d)) = sort_key era_val (map fst (eras d))"
  proof (rule js_sort_key)
    fix x y assume "x \<in> set (map fst (eras d))" "y \<in> set (map fst (eras d))"
    with assms have "valid_era_id x" "valid_era_id y"
      by (auto simp: valid_eras_def list_all_iff)
    then show "(era_cmp x y \<le> 0) = (era_val x \<le> era_val y)" by (rule era_cmp_valid)
  qed
  then show ?thesis by (simp add: parseEra_def obj_keys_def)
qed

lemma strict_sorted_key:
  assumes "sorted (map f xs)" "distinct xs" "inj_on f (set xs)"
  shows "sorted_wrt (\<lambda>a b. f a < f b) xs"
proof -
  have "distinct (map f xs)" using assms(2,3) by (simp add: distinct_map)
  with assms(1) have "sorted_wrt (<) (map f xs)" by (simp add: strict_sorted_iff)
  then show ?thesis by (simp add: sorted_wrt_map)
qed

text \<open>
  The result of \<open>parseEra\<close> does not depend on the host's sorting algorithm: for a valid
  \<open>eras\<close> section, the only duplicate-free arrangement of its keys that is sorted for the
  comparator is the one the model computes.
\<close>

lemma parseEra_any_sort:
  assumes v: "valid_eras (eras d)"
    and d: "distinct ys" and s: "set ys = set (obj_keys (Some (eras d)))"
    and o: "sorted_wrt (\<lambda>a b. era_cmp a b \<le> 0) ys"
  shows "ys = parseEra d"
proof -
  let ?ks = "map fst (eras d)"
  note pe = parseEra_sort_key [OF v]
  from v have dk: "distinct ?ks" and vk: "\<forall>k\<in>set ?ks. valid_era_id k"
    by (simp_all add: valid_eras_def list_all_iff)
  from s have sy: "set ys = set ?ks" by (simp add: obj_keys_def)
  have inj: "inj_on era_val (set ys \<union> set (parseEra d))"
    using vk sy by (simp add: pe era_val_inj_on)
  have "sorted_wrt (\<lambda>a b. era_val a \<le> era_val b) ys"
  proof (rule sorted_wrt_mono_rel [OF _ o])
    fix a b assume a: "a \<in> set ys" and b: "b \<in> set ys" and l: "era_cmp a b \<le> 0"
    from a b vk sy have "valid_era_id a" "valid_era_id b" by blast+
    from era_cmp_valid [OF this] l show "era_val a \<le> era_val b" by simp
  qed
  then have so: "sorted (map era_val ys)" by (simp add: sorted_map)
  have "map era_val ys = map era_val (parseEra d)"
  proof (rule sorted_distinct_set_unique)
    show "sorted (map era_val ys)" by (rule so)
    show "sorted (map era_val (parseEra d))" by (simp add: pe)
    show "distinct (map era_val ys)" using d inj by (simp add: distinct_map inj_on_Un)
    show "distinct (map era_val (parseEra d))"
      using dk inj by (simp add: pe distinct_map inj_on_Un)
    show "set (map era_val ys) = set (map era_val (parseEra d))" using sy by (simp add: pe)
  qed
  then show ?thesis using inj by (simp add: inj_on_map_eq_map)
qed

section \<open>The claims\<close>

subsection \<open>Evaluations of the examples\<close>

lemma web_transform:
  "resolvePrefixes web_prefs web_state ''transform'' = Inr (Some [''-webkit-'', ''-moz-'', ''-ms-''])"
  by code_simp

lemma web_box_shadow: "resolvePrefixes web_prefs web_state ''box-shadow'' = Inr None"
  by code_simp

lemma gap_tables:
  "cssDB gap_state = Some [(''hyphens'', hyphens_stats), (''box-sizing'', boxsizing_stats)]"
  "vendorsDB gap_state = Some web_vendors"
  "erasDB gap_state = Some [''e-2'', ''e-1'', ''e0'']"
  by code_simp+

lemma web_tables:
  "vendorsDB web_state = Some web_vendors"
  "erasDB web_state = Some [''e-2'', ''e-1'', ''e0'']"
  by code_simp+

lemma future_tables:
  "erasDB future_state = Some [''e1'', ''e2'', ''e3'']"
  by code_simp


subsection \<open>C1: when the resolver answers null\<close>

text \<open>
  C1 says that \<open>resolvePrefixes\<close> returns \<open>null\<close> exactly when the feature is disabled,
  no database is parsed, or the identifier has no entry in the support matrix, and a list in
  every other case. The source throws a TypeError instead of returning a list when the scan
  reaches a vendor and version for which the identifier's table has no cell: with
  \<open>gap_doc\<close> loaded, \<open>hyphens\<close> has an entry and the feature is enabled, yet the call
  ends in a TypeError, because the table of \<open>css-hyphens\<close> has no row for \<open>chrome\<close>.
\<close>

theorem resolvePrefixes_not_always_list:
  "enabled web_prefs \<and>
   (case cssDB gap_state of None \<Rightarrow> False | Some css \<Rightarrow> obj_get css ''hyphens'' \<noteq> None) \<and>
   resolvePrefixes web_prefs gap_state ''hyphens'' = Inl TypeError"
  by code_simp

text \<open>
  C1 as amended: for an identifier that is not the name of a property every object inherits,
  the result is \<open>null\<close> exactly in the three cases of the claim; in every other case the
  call returns a list or throws a TypeError, and it returns a list whenever the identifier's
  table has a cell for every version label the scan can read. (For an inherited name such as
  \<open>constructor\<close> the test \<open>property in cssDB\<close> succeeds without an entry; the statement
  leaves those names out.)
\<close>

theorem resolvePrefixes_null_iff:
  assumes "property \<notin> set Object_prototype_names"
  shows "(resolvePrefixes p st property = Inr None) =
           (\<not> enabled p \<or> cssDB st = None \<or> (\<exists>css. cssDB st = Some css \<and> obj_get css property = None))
         \<and> (resolvePrefixes p st property \<noteq> Inr None \<longrightarrow>
              resolvePrefixes p st property = Inl TypeError \<or>
              (\<exists>ps. resolvePrefixes p st property = Inr (Some ps)))
         \<and> (\<forall>css propStats. enabled p \<and> cssDB st = Some css \<and> obj_get css property = Some propStats \<and>
               cells_present p st propStats \<longrightarrow> (\<exists>ps. resolvePrefixes p st property = Inr (Some ps)))"
proof (cases "enabled p \<and> cssDB st \<noteq> None \<and> (\<exists>css. cssDB st = Some css \<and> obj_get css property \<noteq> None)")
  case False
  then have n: "resolvePrefixes p st property = Inr None"
    using assms by (auto simp: resolvePrefixes_def js_in_def split: option.splits)
  with False show ?thesis by auto
next
  case True
  then obtain css P where h: "enabled p" "cssDB st = Some css" "obj_get css property = Some P"
    by auto
  then have j: "js_in property css" by (simp add: js_in_def)
  note nn = resolve_not_null [OF h(1,2) j]
  have c1: "(resolvePrefixes p st property = Inr None) =
           (\<not> enabled p \<or> cssDB st = None \<or> (\<exists>css. cssDB st = Some css \<and> obj_get css property = None))"
    using nn h by auto
  have c2: "resolvePrefixes p st property = Inl TypeError \<or>
              (\<exists>ps. resolvePrefixes p st property = Inr (Some ps))" using nn .
  have c3: "\<exists>ps. resolvePrefixes p st property = Inr (Some ps)" if cp: "cells_present p st P"
  proof -
    have "eachVendor (case vendorsDB st of Some v \<Rightarrow> v | None \<Rightarrow> []) P
             (getVersionSlice p st) (getVendorsList p st) [] \<noteq> Inl TypeError"
      unfolding eachVendor_Inl_iff
    proof
      assume "\<exists>vendor\<in>set (getVendorsList p st).
        case obj_get (case vendorsDB st of Some v \<Rightarrow> v | None \<Rightarrow> []) vendor of
          None \<Rightarrow> True
        | Some info \<Rightarrow> scanVersions P vendor (js_slice (versions info) (getVersionSlice p st)) = Inl TypeError"
      then obtain vendor where v: "vendor \<in> set (getVendorsList p st)" and
        b: "case obj_get (case vendorsDB st of Some v \<Rightarrow> v | None \<Rightarrow> []) vendor of
          None \<Rightarrow> True
        | Some info \<Rightarrow> scanVersions P vendor (js_slice (versions info) (getVersionSlice p st)) = Inl TypeError"
        by blast
      show False
      proof (cases "vendorsDB st")
        case None
        with v show False using getVendorsList_subset [of p st] by (auto simp: obj_keys_def)
      next
        case (Some vdb)
        from getVendorsList_known [OF Some v] obtain info where i: "obj_get vdb vendor = Some info" by blast
        from cp v i Some have "\<forall>v\<in>set (js_slice (versions info) (getVersionSlice p st)).
               case v of None \<Rightarrow> True | Some l \<Rightarrow> l = [] \<or> cell P vendor l \<noteq> None"
          by (auto simp: cells_present_def)
        from scan_complete [OF this] b i Some show False by simp
      qed
    qed
    then show ?thesis using resolve_not_null [OF h(1,2) j] h
      by (auto simp: resolve_running [OF h(1,2) j] split: sum.splits dest: eachVendor_error)
  qed
  show ?thesis using c1 c2 c3 h by auto
qed

theorem resolvePrefixes_null_iff_witness:
  "''box-shadow'' \<notin> set Object_prototype_names \<and>
   resolvePrefixes web_prefs web_state ''box-shadow'' = Inr None \<and>
   enabled web_prefs \<and>
   (case cssDB web_state of None \<Rightarrow> False | Some css \<Rightarrow> obj_get css ''box-shadow'' = None)"
proof -
  have a: "''box-shadow'' \<notin> set Object_prototype_names"
    by (simp add: Object_prototype_names_def)
  have e: "enabled web_prefs" by (simp add: web_prefs_def)
  have c: "cssDB web_state \<noteq> None" by code_simp
  from resolvePrefixes_null_iff [OF a, of web_prefs web_state] web_box_shadow e c
  have "\<exists>css. cssDB web_state = Some css \<and> obj_get css ''box-shadow'' = None" by blast
  then show ?thesis using a e web_box_shadow by auto
qed

subsection \<open>C2: the scan of one vendor's versions\<close>




subsection \<open>C3: a missing cell\<close>

text \<open>
  C3 says that a version label with no cell in the identifier's table counts as not flagged
  and that the call completes normally. In the source the missing cell is \<open>undefined\<close> and
  \<open>indexOf\<close> is called on it: with \<open>gap_doc\<close> loaded, the row of \<open>safari\<close> in the table of
  \<open>box-sizing\<close> has no entry for version \<open>7\<close>, the scan reaches it, and the call throws.
\<close>

theorem missing_cell_not_tolerated:
  "enabled web_prefs
   \<and> (case cssDB gap_state of
         None \<Rightarrow> False
       | Some css \<Rightarrow> obj_get css ''box-sizing'' = Some boxsizing_stats)
   \<and> vendorsDB gap_state = Some web_vendors
   \<and> obj_get web_vendors ''safari'' = Some \<lparr>prefix = ''-webkit-'', versions = [None, Some ''7'', None]\<rparr>
   \<and> getVersionSlice web_prefs gap_state = 0
   \<and> cell boxsizing_stats ''safari'' ''7'' = None
   \<and> resolvePrefixes web_prefs gap_state ''box-sizing'' = Inl TypeError"
  by code_simp

text \<open>
  C3 as amended: for an identifier with a matrix entry, and an effective vendor list none of
  whose vendors is named like an inherited property: a call with the feature enabled throws
  a TypeError exactly when the scan of some vendor of the effective list reaches a version
  label with no cell (every entry before it in the slice is passed over); an enabled call
  that reaches none completes with a list; a call with the feature disabled returns
  \<open>null\<close>.
\<close>

theorem missing_cell_throws:
  assumes "cssDB st = Some css" "obj_get css property = Some propStats"
    "\<forall>vendor\<in>set (getVendorsList p st). vendor \<notin> set Object_prototype_names"
  shows "(resolvePrefixes p st property = Inl TypeError) =
           (enabled p \<and>
            (\<exists>vendor i pre l post.
               (vendor, i) \<in> set (vendor_infos p st) \<and>
               from_start (getVersionSlice p st) (versions i) = pre @ Some l # post \<and>
               (\<forall>u\<in>set pre. passes propStats vendor u) \<and> l \<noteq> [] \<and>
               cell propStats vendor l = None))
         \<and> (enabled p \<and> resolvePrefixes p st property \<noteq> Inl TypeError \<longrightarrow>
              (\<exists>ps. resolvePrefixes p st property = Inr (Some ps)))
         \<and> (\<not> enabled p \<longrightarrow> resolvePrefixes p st property = Inr None)"
proof (cases "enabled p")
  case False
  then have n: "resolvePrefixes p st property = Inr None" by (simp add: resolvePrefixes_def)
  with False show ?thesis by simp
next
  case True
  let ?vdb = "case vendorsDB st of Some v \<Rightarrow> v | None \<Rightarrow> []"
  let ?k = "getVersionSlice p st"
  have j: "js_in property css" using assms(2) by (simp add: js_in_def)
  note run = resolve_running [OF True assms(1) j]
  let ?ev = "eachVendor ?vdb propStats ?k (getVendorsList p st) []"
  have r: "resolvePrefixes p st property =
      (case ?ev of Inl e \<Rightarrow> Inl e | Inr prefixes \<Rightarrow> Inr (Some (js_sort length_cmp (uniq prefixes))))"
    using run assms(2) by simp
  have a: "(resolvePrefixes p st property = Inl TypeError) = (?ev = Inl TypeError)"
    by (auto simp: r split: sum.splits dest: eachVendor_error)
  have b: "(?ev = Inl TypeError) =
      (\<exists>vendor i. (vendor, i) \<in> set (vendor_infos p st) \<and>
          scanVersions propStats vendor (from_start ?k (versions i)) = Inl TypeError)"
  proof -
    have "\<And>vendor. vendor \<in> set (getVendorsList p st) \<Longrightarrow>
        (case obj_get ?vdb vendor of None \<Rightarrow> True
         | Some info \<Rightarrow> scanVersions propStats vendor (js_slice (versions info) ?k) = Inl TypeError)
        = (\<exists>i. obj_get ?vdb vendor = Some i \<and>
          scanVersions propStats vendor (from_start ?k (versions i)) = Inl TypeError)"
      using vendor_known [of _ p st] by (auto simp: slice_from_start split: option.splits)
    then show ?thesis unfolding eachVendor_Inl_iff vendor_infos_iff by blast
  qed
  have c: "(resolvePrefixes p st property = Inl TypeError) =
           (\<exists>vendor i pre l post.
               (vendor, i) \<in> set (vendor_infos p st) \<and>
               from_start ?k (versions i) = pre @ Some l # post \<and>
               (\<forall>u\<in>set pre. passes propStats vendor u) \<and> l \<noteq> [] \<and>
               cell propStats vendor l = None)"
    unfolding a b scan_TypeError_iff by blast
  have d: "resolvePrefixes p st property = Inl TypeError \<or>
      (\<exists>ps. resolvePrefixes p st property = Inr (Some ps))"
    by (rule resolve_not_null [OF True assms(1) j])
  show ?thesis using True c d by blast
qed

theorem missing_cell_throws_witness:
  "cssDB gap_state = Some [(''hyphens'', hyphens_stats), (''box-sizing'', boxsizing_stats)]
   \<and> obj_get [(''hyphens'', hyphens_stats), (''box-sizing'', boxsizing_stats)] ''box-sizing''
        = Some boxsizing_stats
   \<and> getVendorsList web_prefs gap_state = [''ie'', ''firefox'', ''chrome'', ''safari'']
   \<and> ''ie'' \<notin> set Object_prototype_names \<and> ''firefox'' \<notin> set Object_prototype_names
   \<and> ''chrome'' \<notin> set Object_prototype_names \<and> ''safari'' \<notin> set Object_prototype_names
   \<and> enabled web_prefs
   \<and> cell boxsizing_stats ''safari'' ''7'' = None
   \<and> resolvePrefixes web_prefs gap_state ''box-sizing'' = Inl TypeError"
proof -
  have h1: "enabled web_prefs" by (simp add: web_prefs_def)
  have h3: "obj_get [(''hyphens'', hyphens_stats), (''box-sizing'', boxsizing_stats)] ''box-sizing''
        = Some boxsizing_stats" by (simp add: obj_get_def)
  have g: "getVendorsList web_prefs gap_state = [''ie'', ''firefox'', ''chrome'', ''safari'']"
    by code_simp
  have n: "''ie'' \<notin> set Object_prototype_names" "''firefox'' \<notin> set Object_prototype_names"
    "''chrome'' \<notin> set Object_prototype_names" "''safari'' \<notin> set Object_prototype_names"
    by (simp_all add: Object_prototype_names_def)
  have h4: "\<forall>vendor\<in>set (getVendorsList web_prefs gap_state). vendor \<notin> set Object_prototype_names"
    using n by (simp add: g)
  have v: "(''safari'', \<lparr>prefix = ''-webkit-'', versions = [None, Some ''7'', None]\<rparr>)
             \<in> set (vendor_infos web_prefs gap_state)" by code_simp
  have s: "from_start (getVersionSlice web_prefs gap_state)
             (versions \<lparr>prefix = ''-webkit-'', versions = [None, Some ''7'', None]\<rparr>)
           = [None] @ Some ''7'' # [None]" by code_simp
  have q: "\<forall>u\<in>set [None]. passes boxsizing_stats ''safari'' u" by (simp add: passes_def)
  have c: "cell boxsizing_stats ''safari'' ''7'' = None" by code_simp
  have l: "''7'' \<noteq> []" by simp
  from v s q l c have
    "\<exists>vendor i pre l post.
        (vendor, i) \<in> set (vendor_infos web_prefs gap_state) \<and>
        from_start (getVersionSlice web_prefs gap_state) (versions i) = pre @ Some l # post \<and>
        (\<forall>u\<in>set pre. passes boxsizing_stats vendor u) \<and> l \<noteq> [] \<and>
        cell boxsizing_stats vendor l = None"
    by blast
  with h1 have "enabled web_prefs \<and>
     (\<exists>vendor i pre l post.
        (vendor, i) \<in> set (vendor_infos web_prefs gap_state) \<and>
        from_start (getVersionSlice web_prefs gap_state) (versions i) = pre @ Some l # post \<and>
        (\<forall>u\<in>set pre. passes boxsizing_stats vendor u) \<and> l \<noteq> [] \<and>
        cell boxsizing_stats vendor l = None)" by (rule conjI)
  then have "resolvePrefixes web_prefs gap_state ''box-sizing'' = Inl TypeError"
    by (rule iffD2 [OF conjunct1 [OF missing_cell_throws [OF gap_tables(1) h3 h4]]])
  with h1 h3 gap_tables(1) g n c show ?thesis by simp
qed

subsection \<open>C4: the returned list is duplicate-free and sorted by descending length\<close>

text \<open>
  C4: whenever \<open>resolvePrefixes\<close> returns a list, the list has no duplicate prefix and is
  sorted by string length, longest first.
\<close>

theorem resolvePrefixes_distinct_sorted:
  assumes "resolvePrefixes p st property = Inr (Some ps)"
  shows "distinct ps \<and> sorted_wrt (\<lambda>a b. length a \<ge> length b) ps"
proof -
  from assms obtain prefixes where ps: "ps = js_sort length_cmp (uniq prefixes)"
    by (auto simp: resolvePrefixes_def Let_def split: if_splits option.splits sum.splits)
  have d: "distinct ps" by (simp add: ps js_sort_length distinct_uniq)
  have "sorted (map (\<lambda>s. - int (length s)) ps)" by (simp add: ps js_sort_length)
  then have "sorted_wrt (\<lambda>a b. length a \<ge> length b) ps"
    by (simp add: sorted_map sorted_wrt_iff_nth_less) 
  with d show ?thesis by simp
qed

theorem resolvePrefixes_distinct_sorted_witness:
  "resolvePrefixes web_prefs web_state ''transform'' = Inr (Some [''-webkit-'', ''-moz-'', ''-ms-''])
   \<and> distinct [''-webkit-'', ''-moz-'', ''-ms-'']
   \<and> sorted_wrt (\<lambda>a b. length a \<ge> length b) [''-webkit-'', ''-moz-'', ''-ms-'']"
  using resolvePrefixes_distinct_sorted [OF web_transform] web_transform by simp

subsection \<open>C5: the effective vendor list\<close>

text \<open>
  C5 says that the effective vendor set is every vendor key when the configured list is
  empty or equals the \<open>all\<close> sentinel, and otherwise the intersection of the configured list
  with the vendor keys. The source tests only the first entry of the list
  (\<open>vendors[0] == 'all'\<close>): the list \<open>all, chrome\<close> is not the sentinel, its intersection
  with the vendor keys is \<open>chrome\<close> alone, and the source returns all four vendors.
\<close>

theorem all_first_then_more:
  "vendors all_chrome_prefs = Some [''all'', ''chrome'']
   \<and> obj_keys (vendorsDB web_state) = [''ie'', ''firefox'', ''chrome'', ''safari'']
   \<and> intersection (obj_keys (vendorsDB web_state)) [''all'', ''chrome''] = [''chrome'']
   \<and> getVendorsList all_chrome_prefs web_state = [''ie'', ''firefox'', ''chrome'', ''safari'']"
  by code_simp

text \<open>
  C5 as amended: the effective vendor list is the list of all vendor keys when the preference
  reader gives no list (\<open>null\<close>, which is what it gives for an empty preference) or a list
  whose first entry is \<open>all\<close>, whatever follows; otherwise it holds exactly the vendor keys
  that occur in the configured list, each once and in the order of the vendor table, so that
  configured names unknown to the vendor table are dropped; no case raises an error.
\<close>

theorem getVendorsList_cases:
  "((vendors p = None \<or> (\<exists>rest. vendors p = Some (''all'' # rest))) \<longrightarrow>
       getVendorsList p st = obj_keys (vendorsDB st))
   \<and> (\<forall>cfg. vendors p = Some cfg \<and> (\<forall>rest. cfg \<noteq> ''all'' # rest) \<longrightarrow>
         set (getVendorsList p st) = set (obj_keys (vendorsDB st)) \<inter> set cfg \<and>
         distinct (getVendorsList p st) \<and>
         (distinct (obj_keys (vendorsDB st)) \<longrightarrow>
            getVendorsList p st = filter (\<lambda>v. v \<in> set cfg) (obj_keys (vendorsDB st))))"
proof -
  have a: "(vendors p = None \<or> (\<exists>rest. vendors p = Some (''all'' # rest))) \<longrightarrow>
       getVendorsList p st = obj_keys (vendorsDB st)"
    by (auto simp: getVendorsList_def)
  have b: "getVendorsList p st = intersection (obj_keys (vendorsDB st)) cfg"
    if "vendors p = Some cfg" "\<forall>rest. cfg \<noteq> ''all'' # rest" for cfg
    using that by (cases cfg) (auto simp: getVendorsList_def Let_def)
  have c: "set (intersection xs ys) = set xs \<inter> set ys \<and> distinct (intersection xs ys) \<and>
      (distinct xs \<longrightarrow> intersection xs ys = filter (\<lambda>v. v \<in> set ys) xs)" for xs ys :: "string list"
    by (auto simp: intersection_def set_uniq distinct_uniq uniq_distinct)
  show ?thesis using a b c by metis
qed

theorem getVendorsList_cases_witness:
  "vendors some_vendors_prefs = Some [''netscape'', ''firefox'']
   \<and> set (getVendorsList some_vendors_prefs web_state)
        = set (obj_keys (vendorsDB web_state)) \<inter> set [''netscape'', ''firefox'']
   \<and> distinct (getVendorsList some_vendors_prefs web_state)
   \<and> vendors web_prefs = Some [''all'']
   \<and> getVendorsList web_prefs web_state = obj_keys (vendorsDB web_state)"
proof -
  have c: "vendors some_vendors_prefs = Some [''netscape'', ''firefox'']"
    by (simp add: some_vendors_prefs_def)
  have n: "\<forall>rest. [''netscape'', ''firefox''] \<noteq> ''all'' # rest" by simp
  note t = getVendorsList_cases [of some_vendors_prefs web_state]
  from conjunct2 [OF t] c n have
    a: "set (getVendorsList some_vendors_prefs web_state)
        = set (obj_keys (vendorsDB web_state)) \<inter> set [''netscape'', ''firefox'']
      \<and> distinct (getVendorsList some_vendors_prefs web_state)"
    by blast
  have w: "vendors web_prefs = Some [''all'']" by (simp add: web_prefs_def)
  then have "vendors web_prefs = None \<or> (\<exists>rest. vendors web_prefs = Some (''all'' # rest))" by simp
  with conjunct1 [OF getVendorsList_cases [of web_prefs web_state]]
  have b: "getVendorsList web_prefs web_state = obj_keys (vendorsDB web_state)" by blast
  from a b c w show ?thesis by simp
qed

subsection \<open>C6: the starting era index\<close>

text \<open>
  C6 says that the starting index is the position of the configured era in \<open>erasDB\<close>, or
  that of \<open>e-2\<close> when the configured era is not found, and that every era at or after the
  starting index is considered and none before it. When neither identifier is in
  \<open>erasDB\<close> the index is \<open>-1\<close>, and \<open>slice(-1)\<close> keeps the last version only: in
  \<open>future_state\<close> the version of \<open>ie\<close> at era index 0 has a code with \<open>x\<close>, index 0 is
  not before \<open>-1\<close>, and yet \<open>-ms-\<close> is not in the result, because that era was not read.
\<close>

theorem start_minus_one_skips_eras:
  "erasDB future_state = Some [''e1'', ''e2'', ''e3'']
   \<and> getVersionSlice old_era_prefs future_state = - 1
   \<and> (case vendorsDB future_state of
         None \<Rightarrow> False
       | Some vdb \<Rightarrow> obj_get vdb ''ie''
           = Some \<lparr>prefix = ''-ms-'', versions = [Some ''9'', Some ''10'', Some ''11'']\<rparr>)
   \<and> js_slice [Some ''9'', Some ''10'', Some ''11''] (- 1) = [Some ''11'']
   \<and> cell transforms_stats ''ie'' ''9'' = Some ''y x'' \<and> has_x ''y x''
   \<and> resolvePrefixes old_era_prefs future_state ''transform'' = Inr (Some [''-webkit-''])"
  by code_simp

text \<open>
  C6 as amended: when the configured era or \<open>e-2\<close> occurs in \<open>erasDB\<close>, the starting
  index is the first position of the configured era, or of \<open>e-2\<close> when the configured era is
  not found; the slice scanned for a vendor is its version list from that position to the
  end; and the result of \<open>resolvePrefixes\<close> does not depend on the versions before that
  position: any vendor table that agrees with the loaded one from the starting index on
  gives the same result for every identifier.
\<close>

theorem getVersionSlice_start:
  assumes "erasDB st = Some eo" "era p \<in> set eo \<or> ''e-2'' \<in> set eo"
  shows "0 \<le> getVersionSlice p st \<and> nat (getVersionSlice p st) < length eo
    \<and> eo ! nat (getVersionSlice p st) = (if era p \<in> set eo then era p else ''e-2'')
    \<and> (\<forall>j<nat (getVersionSlice p st). eo ! j \<noteq> eo ! nat (getVersionSlice p st))
    \<and> (\<forall>vs::string option list. js_slice vs (getVersionSlice p st) = drop (nat (getVersionSlice p st)) vs)
    \<and> (\<forall>vdb vdb' property. vendorsDB st = Some vdb \<and> agree_from (nat (getVersionSlice p st)) vdb vdb' \<longrightarrow>
          resolvePrefixes p (st\<lparr>vendorsDB := Some vdb'\<rparr>) property = resolvePrefixes p st property)"
proof -
  from getVersionSlice_found [OF assms] obtain n where
    n: "getVersionSlice p st = int n" "n < length eo"
       "eo ! n = (if era p \<in> set eo then era p else ''e-2'')" "\<forall>j<n. eo ! j \<noteq> eo ! n"
    by blast
  have nn: "0 \<le> getVersionSlice p st" using n(1) by simp
  have a: "\<forall>vs::string option list. js_slice vs (getVersionSlice p st) = drop (nat (getVersionSlice p st)) vs"
    using nn by (simp add: js_slice_nonneg)
  have b: "\<forall>vdb vdb' property. vendorsDB st = Some vdb \<and> agree_from (nat (getVersionSlice p st)) vdb vdb' \<longrightarrow>
          resolvePrefixes p (st\<lparr>vendorsDB := Some vdb'\<rparr>) property = resolvePrefixes p st property"
    using resolve_agree nn by blast
  show ?thesis using n a b by simp
qed

theorem getVersionSlice_start_witness:
  "erasDB web_state = Some [''e-2'', ''e-1'', ''e0'']
   \<and> era old_era_prefs \<notin> set [''e-2'', ''e-1'', ''e0'']
   \<and> ''e-2'' \<in> set [''e-2'', ''e-1'', ''e0'']
   \<and> 0 \<le> getVersionSlice old_era_prefs web_state
   \<and> [''e-2'', ''e-1'', ''e0''] ! nat (getVersionSlice old_era_prefs web_state) = ''e-2''
   \<and> js_slice [Some ''9'', Some ''10'', Some ''11''] (getVersionSlice old_era_prefs web_state)
        = drop (nat (getVersionSlice old_era_prefs web_state)) [Some ''9'', Some ''10'', Some ''11'']"
proof -
  have n: "era old_era_prefs \<notin> set [''e-2'', ''e-1'', ''e0'']" by (simp add: old_era_prefs_def)
  have e: "''e-2'' \<in> set [''e-2'', ''e-1'', ''e0'']" by simp
  then have d: "era old_era_prefs \<in> set [''e-2'', ''e-1'', ''e0''] \<or> ''e-2'' \<in> set [''e-2'', ''e-1'', ''e0'']"
    by (rule disjI2)
  note t = getVersionSlice_start [OF web_tables(2) d]
  from t have a: "0 \<le> getVersionSlice old_era_prefs web_state" by (rule conjunct1)
  from t n have b: "[''e-2'', ''e-1'', ''e0''] ! nat (getVersionSlice old_era_prefs web_state) = ''e-2''"
    by simp
  from t have "\<forall>vs::string option list. js_slice vs (getVersionSlice old_era_prefs web_state)
        = drop (nat (getVersionSlice old_era_prefs web_state)) vs"
    by simp
  then have c: "js_slice [Some ''9'', Some ''10'', Some ''11''] (getVersionSlice old_era_prefs web_state)
        = drop (nat (getVersionSlice old_era_prefs web_state)) [Some ''9'', Some ''10'', Some ''11'']"
    by (rule spec)
  from web_tables(2) n e a b c show ?thesis by simp
qed

subsection \<open>C7: the era order\<close>

text \<open>
  C7: for every valid \<open>eras\<close> section, the era order that parsing produces is strictly
  increasing by the integer read from each identifier after its first character, has no
  duplicate, holds exactly the keys of the section, and is the same for every enumeration
  order of those keys.
\<close>

theorem parseEra_strictly_increasing:
  assumes "valid_eras (eras d)"
  shows "sorted_wrt era_less (parseEra d) \<and> distinct (parseEra d)
    \<and> set (parseEra d) = set (obj_keys (Some (eras d)))
    \<and> (\<forall>d'. valid_eras (eras d') \<and> set (obj_keys (Some (eras d'))) = set (obj_keys (Some (eras d)))
          \<longrightarrow> parseEra d' = parseEra d)"
proof -
  let ?ks = "map fst (eras d)"
  note pe = parseEra_sort_key [OF assms]
  from assms have dk: "distinct ?ks" and vk: "\<forall>k\<in>set ?ks. valid_era_id k"
    by (simp_all add: valid_eras_def list_all_iff)
  have s: "set (parseEra d) = set ?ks" by (simp add: pe)
  have dp: "distinct (parseEra d)" using dk by (simp add: pe)
  have inj: "inj_on era_val (set (parseEra d))" using vk s by (simp add: era_val_inj_on)
  have "sorted (map era_val (parseEra d))" by (simp add: pe)
  from strict_sorted_key [OF this dp inj]
  have sw: "sorted_wrt (\<lambda>a b. era_val a < era_val b) (parseEra d)" .
  have sl: "sorted_wrt era_less (parseEra d)"
  proof (rule sorted_wrt_mono_rel [OF _ sw])
    fix a b assume a: "a \<in> set (parseEra d)" and b: "b \<in> set (parseEra d)"
      and l: "era_val a < era_val b"
    from a b vk s have "valid_era_id a" "valid_era_id b" by blast+
    from era_less_valid [OF this] l show "era_less a b" by simp
  qed
  have ind: "parseEra d' = parseEra d"
    if v': "valid_eras (eras d')" and
       e: "set (obj_keys (Some (eras d'))) = set (obj_keys (Some (eras d)))" for d'
  proof -
    let ?ks' = "map fst (eras d')"
    note pe' = parseEra_sort_key [OF v']
    from v' have dk': "distinct ?ks'" by (simp add: valid_eras_def)
    from e have se: "set ?ks' = set ?ks" by (simp add: obj_keys_def)
    have i2: "inj_on era_val (set (parseEra d') \<union> set (parseEra d))"
      using vk s se by (simp add: pe' era_val_inj_on)
    have "map era_val (parseEra d') = map era_val (parseEra d)"
    proof (rule sorted_distinct_set_unique)
      show "sorted (map era_val (parseEra d'))" by (simp add: pe')
      show "sorted (map era_val (parseEra d))" by (simp add: pe)
      show "distinct (map era_val (parseEra d'))"
        using dk' i2 by (simp add: pe' distinct_map inj_on_Un)
      show "distinct (map era_val (parseEra d))"
        using dp inj by (simp add: distinct_map)
      show "set (map era_val (parseEra d')) = set (map era_val (parseEra d))"
        using se by (simp add: pe pe')
    qed
    then show ?thesis using i2 by (simp add: inj_on_map_eq_map)
  qed
  show ?thesis using sl dp s ind by (simp add: obj_keys_def)
qed

theorem parseEra_strictly_increasing_witness:
  "valid_eras (eras web_doc)
   \<and> obj_keys (Some (eras web_doc)) = [''e0'', ''e-2'', ''e-1'']
   \<and> parseEra web_doc = [''e-2'', ''e-1'', ''e0'']
   \<and> sorted_wrt era_less (parseEra web_doc)
   \<and> distinct (parseEra web_doc)"
proof -
  have v: "valid_eras (eras web_doc)" by code_simp
  have k: "obj_keys (Some (eras web_doc)) = [''e0'', ''e-2'', ''e-1'']" by code_simp
  have p: "parseEra web_doc = [''e-2'', ''e-1'', ''e0'']" by code_simp
  note t = parseEra_strictly_increasing [OF v]
  from t have s: "sorted_wrt era_less (parseEra web_doc)" by (rule conjunct1)
  from t have d: "distinct (parseEra web_doc)" by (rule conjunct1 [OF conjunct2])
  from v k p s d show ?thesis by simp
qed

subsection \<open>C8: what load leaves behind\<close>




subsection \<open>C9: neither the configured era nor e-2 is known\<close>

text \<open>
  C9 says that when neither the configured era nor \<open>e-2\<close> is in \<open>erasDB\<close> the starting
  index is \<open>-1\<close> and every vendor's scanned slice is exactly the vendor's last version
  label, never the empty slice. A vendor whose version list is empty has no last label, and
  its slice is empty: \<open>opera\<close> in \<open>future_state\<close>.
\<close>

theorem no_versions_empty_slice:
  "erasDB future_state = Some [''e1'', ''e2'', ''e3'']
   \<and> era old_era_prefs = ''e-9''
   \<and> getVersionSlice old_era_prefs future_state = - 1
   \<and> (case vendorsDB future_state of
         None \<Rightarrow> False
       | Some vdb \<Rightarrow> obj_get vdb ''opera'' = Some \<lparr>prefix = ''-o-'', versions = []\<rparr>)
   \<and> js_slice (versions \<lparr>prefix = ''-o-'', versions = []\<rparr>)
        (getVersionSlice old_era_prefs future_state) = []"
  by code_simp

text \<open>
  C9 as amended: when neither the configured era nor \<open>e-2\<close> is in \<open>erasDB\<close>, the
  starting index is \<open>-1\<close>; the scanned slice of a vendor with at least one version entry is
  exactly its last entry (the whole list, when that is its only entry), and the slice of a
  vendor with no version entry is empty.
\<close>

theorem getVersionSlice_not_found:
  assumes "erasDB st = Some eo" "era p \<notin> set eo" "''e-2'' \<notin> set eo"
  shows "getVersionSlice p st = - 1
    \<and> (\<forall>vs::string option list. vs \<noteq> [] \<longrightarrow> js_slice vs (getVersionSlice p st) = [last vs])
    \<and> js_slice ([]::string option list) (getVersionSlice p st) = []"
proof -
  have k: "getVersionSlice p st = - 1"
    using assms by (simp add: getVersionSlice_def lodash_indexOf_notin)
  show ?thesis unfolding k by (simp add: js_slice_minus1) (simp add: js_slice_def)
qed

theorem getVersionSlice_not_found_witness:
  "erasDB future_state = Some [''e1'', ''e2'', ''e3'']
   \<and> era old_era_prefs \<notin> set [''e1'', ''e2'', ''e3'']
   \<and> ''e-2'' \<notin> set [''e1'', ''e2'', ''e3'']
   \<and> getVersionSlice old_era_prefs future_state = - 1
   \<and> js_slice [Some ''9'', Some ''10'', Some ''11''] (getVersionSlice old_era_prefs future_state)
        = [Some ''11'']"
proof -
  have n: "era old_era_prefs \<notin> set [''e1'', ''e2'', ''e3'']" by (simp add: old_era_prefs_def)
  have e: "''e-2'' \<notin> set [''e1'', ''e2'', ''e3'']" by simp
  note t = getVersionSlice_not_found [OF future_tables n e]
  from t have a: "getVersionSlice old_era_prefs future_state = - 1" by (rule conjunct1)
  from t have "\<forall>vs::string option list. vs \<noteq> [] \<longrightarrow>
      js_slice vs (getVersionSlice old_era_prefs future_state) = [last vs]"
    by (rule conjunct1 [OF conjunct2])
  then have "js_slice [Some ''9'', Some ''10'', Some ''11''] (getVersionSlice old_era_prefs future_state)
       = [last [Some ''9'', Some ''10'', Some ''11'']]" by blast
  with future_tables n e a show ?thesis by simp
qed

subsection \<open>C10: identifiers of one feature section\<close>

text \<open>
  C10: two identifiers that \<open>cssSections\<close> lists under the same section name get the same
  support table from parsing (or both get none), so after a successful \<open>load\<close> and under
  the same preferences \<open>resolvePrefixes\<close> gives the same result for both.
\<close>

theorem same_section_same_result:
  assumes "(name, ids) \<in> set cssSections" "a \<in> set ids" "b \<in> set ids"
    "parseDB decode arg st0 = (Inr (), st)"
  shows "(\<exists>css. cssDB st = Some css \<and> obj_get css a = obj_get css b)
         \<and> resolvePrefixes p st a = resolvePrefixes p st b"
proof -
  from parseDB_success [OF assms(4)]
  obtain d css where css: "parseCSS d = Inr css" and
    st: "st = \<lparr>cssDB = Some css, vendorsDB = Some (parseVendors d), erasDB = Some (parseEra d)\<rparr>"
    by blast
  have e: "obj_get css a = obj_get css b" by (rule parseCSS_same [OF assms(1,2,3) css])
  have c: "cssDB st = Some css" by (simp add: st)
  have "resolvePrefixes p st a = resolvePrefixes p st b"
  proof (rule resolve_same_entry)
    fix css' assume "cssDB st = Some css'"
    with c e show "obj_get css' a = obj_get css' b" by simp
  next
    show "a \<notin> set Object_prototype_names" by (rule cssSections_no_inherited [OF assms(1,2)])
  next
    show "b \<notin> set Object_prototype_names" by (rule cssSections_no_inherited [OF assms(1,3)])
  qed
  with c e show ?thesis by simp
qed

theorem same_section_same_result_witness:
  "(''css-transitions'', [''transition'', ''transition-property'', ''transition-duration'',
        ''transition-timing-function'', ''transition-delay'']) \<in> set cssSections
   \<and> parseDB no_json (Document web_doc) init_state = (Inr (), web_state)
   \<and> resolvePrefixes web_prefs web_state ''transition''
        = resolvePrefixes web_prefs web_state ''transition-delay''
   \<and> resolvePrefixes web_prefs web_state ''transition'' = Inr (Some [''-webkit-'', ''-moz-''])"
proof -
  have m: "(''css-transitions'', [''transition'', ''transition-property'', ''transition-duration'',
        ''transition-timing-function'', ''transition-delay'']) \<in> set cssSections"
    by (simp add: cssSections_def)
  have a: "''transition'' \<in> set [''transition'', ''transition-property'', ''transition-duration'',
        ''transition-timing-function'', ''transition-delay'']" by simp
  have b: "''transition-delay'' \<in> set [''transition'', ''transition-property'',
        ''transition-duration'', ''transition-timing-function'', ''transition-delay'']" by simp
  have l: "parseDB no_json (Document web_doc) init_state = (Inr (), web_state)" by code_simp
  have r: "resolvePrefixes web_prefs web_state ''transition'' = Inr (Some [''-webkit-'', ''-moz-''])"
    by code_simp
  from conjunct2 [OF same_section_same_result [OF m a b l, of web_prefs]] m l r
  show ?thesis by simp
qed

end
